theory Spec2Isabelle
  imports Main
begin

section \<open>Reference tracking and search indexing of the object model\<close>

text \<open>
  A shallow embedding of \<^verbatim>\<open>src/models/lib/trackRefs.js\<close> (the reference registry, the
  delta engine and the association builders) and of the search index adapter.
  Exceptions are values of a sum type, objects mutated in place are passed and returned,
  and the calls made on external collaborators (running an action against a target,
  saving a cached instance) are recorded as a task: the calls together with the awaits
  that order them, from which the possible orders of a run in time are derived.
\<close>

subsection \<open>Values, errors and actions\<close>

type_synonym propname = string
type_synonym ident = string
type_synonym model_id = string

text \<open>A reference to a record of a model: what \<^verbatim>\<open>refModel.item(id)\<close> and
  \<^verbatim>\<open>refModel.ref(id)\<close> identify.\<close>

type_synonym ref = "model_id \<times> ident"

text \<open>The values a tracked or indexed property holds: \<^verbatim>\<open>undefined\<close>, \<^verbatim>\<open>null\<close>,
  a string (an id or a text) or an array of strings.\<close>

datatype jsval = Undefined | Null | Str string | Arr "string list"

type_synonym state = "propname \<rightharpoonup> jsval"

datatype error = TypeError | InvalidParameters | UnimplementedError

text \<open>The classes \<^verbatim>\<open>Action\<close> (the abstract base), \<^verbatim>\<open>AppendIDAction\<close>, \<^verbatim>\<open>SetIDAction\<close>,
  \<^verbatim>\<open>RemoveIDAction\<close>, \<^verbatim>\<open>UnsetIDAction\<close> and \<^verbatim>\<open>DeleteItemAction\<close>; the argument is the
  field \<^verbatim>\<open>prop\<close>.\<close>

datatype action =
    Action propname
  | AppendIDAction propname
  | SetIDAction propname
  | RemoveIDAction propname
  | UnsetIDAction propname
  | DeleteItemAction

subsection \<open>The reference registry\<close>

record registry =
  props :: "propname list"
  AddActions :: "propname \<rightharpoonup> action list"
  RemoveActions :: "propname \<rightharpoonup> action list"

record index_entry =
  tokens :: "string list"

text \<open>The search index configuration of a class (\<^verbatim>\<open>prototype[searchIndexProps]\<close>): the
  indexed properties and the indexer, called with the index document and a state.\<close>

record search_index =
  index_props :: "propname list"
  indexer :: "ident \<Rightarrow> state \<Rightarrow> index_entry"

text \<open>An item class: the registry on its prototype (\<^verbatim>\<open>ItemClass.prototype[refProps]\<close>,
  absent at first), its search index configuration, and the calls of
  \<^verbatim>\<open>markTriggersUpdateTxn\<close> it has received.\<close>

record item_class =
  refProps :: "registry option"
  searchIndexProps :: "search_index option"
  triggersUpdateTxn :: "(propname list \<times> bool) list"

text \<open>\<^verbatim>\<open>Object.assign(target, ...sources)\<close> on objects given as key-value pairs: a later
  source overwrites an earlier key.\<close>

fun Object_assign :: "('k \<rightharpoonup> 'v) \<Rightarrow> ('k \<times> 'v) list \<Rightarrow> ('k \<rightharpoonup> 'v)" where
  "Object_assign target [] = target"
| "Object_assign target ((k, v) # sources) = Object_assign (target(k \<mapsto> v)) sources"

text \<open>\<^verbatim>\<open>xs.map(f)\<close> for an \<^verbatim>\<open>f\<close> that may throw: the first exception leaves the map.\<close>

fun map_throwing :: "('a \<Rightarrow> error + 'b) \<Rightarrow> 'a list \<Rightarrow> error + 'b list" where
  "map_throwing f [] = Inr []"
| "map_throwing f (x # xs) =
     (case f x of
        Inl err \<Rightarrow> Inl err
      | Inr y \<Rightarrow> (case map_throwing f xs of Inl err \<Rightarrow> Inl err | Inr ys \<Rightarrow> Inr (y # ys)))"

text \<open>One source object \<^verbatim>\<open>{[e]: prev ? prev.XActions[e].concat(acts) : dflt}\<close> of the merge.
  With a prior registry that has no entry for \<^verbatim>\<open>e\<close>, \<^verbatim>\<open>.concat\<close> is called on
  \<^verbatim>\<open>undefined\<close>, which throws a TypeError.\<close>

definition merged_entry ::
  "(propname \<rightharpoonup> action list) option \<Rightarrow> action list \<Rightarrow> action list \<Rightarrow> propname
     \<Rightarrow> error + (propname \<times> action list)" where
  "merged_entry prevActions acts dflt e =
     (case prevActions of
        None \<Rightarrow> Inr (e, dflt)
      | Some m \<Rightarrow> (case m e of None \<Rightarrow> Inl TypeError | Some old \<Rightarrow> Inr (e, old @ acts)))"

text \<open>\<^verbatim>\<open>trackRefs(ItemClass, props, addActions, removeActions)\<close>. The add-actions are merged
  first, then the remove-actions, whose branch without a prior registry reads
  \<^verbatim>\<open>addActions\<close> in the source (line 160); only then is the class touched.\<close>

definition trackRefs ::
  "item_class \<Rightarrow> propname list \<Rightarrow> action list \<Rightarrow> action list \<Rightarrow> error + item_class" where
  "trackRefs ItemClass ps addActions removeActions =
     (let prev = refProps ItemClass in
      case map_throwing (merged_entry (map_option AddActions prev) addActions addActions) ps of
        Inl err \<Rightarrow> Inl err
      | Inr adds \<Rightarrow>
      (case map_throwing (merged_entry (map_option RemoveActions prev) removeActions addActions) ps of
        Inl err \<Rightarrow> Inl err
      | Inr rems \<Rightarrow>
          Inr (ItemClass\<lparr>
            triggersUpdateTxn := triggersUpdateTxn ItemClass @ [(ps, True)],
            refProps := Some \<lparr>
              props = (case prev of Some r \<Rightarrow> props r @ ps | None \<Rightarrow> ps),
              AddActions =
                Object_assign (case prev of Some r \<Rightarrow> AddActions r | None \<Rightarrow> Map.empty) adds,
              RemoveActions =
                Object_assign (case prev of Some r \<Rightarrow> RemoveActions r | None \<Rightarrow> Map.empty) rems
            \<rparr>\<rparr>)))"

text \<open>A registry is well formed when its two action tables have an entry for exactly the
  tracked properties, as every registry built by \<^verbatim>\<open>trackRefs\<close> has.\<close>

definition wf_registry :: "registry \<Rightarrow> bool" where
  "wf_registry r \<longleftrightarrow> dom (AddActions r) = set (props r) \<and> dom (RemoveActions r) = set (props r)"

subsection \<open>Models and the association builders\<close>

text \<open>\<^verbatim>\<open>Meta[prop]\<close>: the \<^verbatim>\<open>type\<close> tag, the property's own \<^verbatim>\<open>refModel\<close> and, for an array,
  the \<^verbatim>\<open>arrayType\<close> with the \<^verbatim>\<open>refModel\<close> of the elements. Each may be missing.\<close>

record array_type =
  elem_refModel :: "model_id option"

record prop_meta =
  mtype :: string
  refModel :: "model_id option"
  arrayType :: "array_type option"

text \<open>A model: its \<^verbatim>\<open>Meta\<close> table and its item class \<^verbatim>\<open>_Item\<close>. A model object is not itself
  a class: what \<^verbatim>\<open>model.prototype\<close> holds is kept in \<^verbatim>\<open>prototype\<close>, absent unless something
  has put a class-like prototype on the object. Models are objects shared by reference,
  so the builders work on a store of models addressed by name.\<close>

record model =
  Meta :: "propname \<rightharpoonup> prop_meta"
  Item :: item_class
  prototype :: "item_class option"

type_synonym world = "model_id \<Rightarrow> model"

text \<open>\<^verbatim>\<open>!!prop2\<close>: an absent or empty property name is falsy.\<close>

definition truthy_prop :: "propname option \<Rightarrow> bool" where
  "truthy_prop p = (case p of None \<Rightarrow> False | Some s \<Rightarrow> s \<noteq> [])"

text \<open>\<^verbatim>\<open>[x].filter(Boolean)\<close> on a list whose elements are an action or \<^verbatim>\<open>null\<close>.\<close>

definition filter_Boolean :: "'a option list \<Rightarrow> 'a list" where
  "filter_Boolean xs = concat (map (\<lambda>x. case x of None \<Rightarrow> [] | Some a \<Rightarrow> [a]) xs)"

text \<open>\<^verbatim>\<open>isTwoWay && model2.Meta[prop2].type === "array"\<close>; reading \<^verbatim>\<open>.type\<close> of a missing
  \<^verbatim>\<open>Meta\<close> entry throws.\<close>

definition isArray_reciprocal :: "world \<Rightarrow> model_id \<Rightarrow> propname option \<Rightarrow> error + bool" where
  "isArray_reciprocal w model2 prop2 =
     (case prop2 of
        None \<Rightarrow> Inr False
      | Some p2 \<Rightarrow>
          if \<not> truthy_prop prop2 then Inr False
          else (case Meta (w model2) p2 of
                  None \<Rightarrow> Inl TypeError
                | Some meta2 \<Rightarrow> Inr (mtype meta2 = ''array'')))"

text \<open>The two action lists \<^verbatim>\<open>connect\<close> passes to \<^verbatim>\<open>trackRefs\<close> (lines 202 to 215).\<close>

definition connect_addActions :: "propname option \<Rightarrow> bool \<Rightarrow> action list" where
  "connect_addActions prop2 isArray2 =
     filter_Boolean
       [if isArray2 then map_option AppendIDAction prop2
        else if truthy_prop prop2 then map_option SetIDAction prop2
        else None]"

definition connect_removeActions :: "propname option \<Rightarrow> bool \<Rightarrow> action list" where
  "connect_removeActions prop2 deleteOnRemove =
     filter_Boolean
       [if deleteOnRemove then Some DeleteItemAction
        else if truthy_prop prop2 then map_option UnsetIDAction prop2
        else None]"

text \<open>Lines 218 and 219: the target model is written into the element type of an array
  property (a missing \<^verbatim>\<open>arrayType\<close> throws) or into the property's own entry.\<close>

definition set_refModel :: "prop_meta \<Rightarrow> model_id \<Rightarrow> error + prop_meta" where
  "set_refModel meta model2 =
     (if mtype meta = ''array'' then
        (case arrayType meta of
           None \<Rightarrow> Inl TypeError
         | Some t \<Rightarrow> Inr (meta\<lparr>arrayType := Some (t\<lparr>elem_refModel := Some model2\<rparr>)\<rparr>))
      else Inr (meta\<lparr>refModel := Some model2\<rparr>))"

text \<open>Lines 194 to 219 of \<^verbatim>\<open>connect\<close>, all but the reciprocal call: the checks, the
  registration on \<^verbatim>\<open>model1._Item\<close> and the target model written into \<^verbatim>\<open>model1.Meta[prop1]\<close>.
  The result is the exception thrown, if any, and the store of models as it is then: what
  was written before a throw stays written.\<close>

definition connect_declare ::
  "world \<Rightarrow> model_id \<Rightarrow> propname \<Rightarrow> model_id \<Rightarrow> propname option \<Rightarrow> bool
     \<Rightarrow> error option \<times> world" where
  "connect_declare w model1 prop1 model2 prop2 deleteOnRemove =
     (case Meta (w model1) prop1 of
        None \<Rightarrow> (Some TypeError, w)
      | Some meta1 \<Rightarrow>
     (case isArray_reciprocal w model2 prop2 of
        Inl err \<Rightarrow> (Some err, w)
      | Inr isArray2 \<Rightarrow>
     if isArray2 \<and> deleteOnRemove then (Some InvalidParameters, w)
     else
     (case trackRefs (Item (w model1)) [prop1]
             (connect_addActions prop2 isArray2)
             (connect_removeActions prop2 deleteOnRemove) of
        Inl err \<Rightarrow> (Some err, w)
      | Inr cls \<Rightarrow>
     (let w1 = w(model1 := (w model1)\<lparr>Item := cls\<rparr>) in
      case set_refModel meta1 model2 of
        Inl err \<Rightarrow> (Some err, w1)
      | Inr meta1' \<Rightarrow>
          (None, w1(model1 := (w1 model1)\<lparr>Meta := (Meta (w1 model1))(prop1 \<mapsto> meta1')\<rparr>))))))"

text \<open>\<^verbatim>\<open>connect(model1, prop1, model2, prop2, deleteOnRemove, noRecurse)\<close>: the declaration,
  then (lines 220 to 222) the reciprocal declaration with the roles swapped,
  \<^verbatim>\<open>deleteOnRemove\<close> false and \<^verbatim>\<open>noRecurse\<close> true.\<close>

function connect ::
  "world \<Rightarrow> model_id \<Rightarrow> propname \<Rightarrow> model_id \<Rightarrow> propname option \<Rightarrow> bool \<Rightarrow> bool
     \<Rightarrow> error option \<times> world" where
  "connect w model1 prop1 model2 prop2 deleteOnRemove noRecurse =
     (case connect_declare w model1 prop1 model2 prop2 deleteOnRemove of
        (Some err, w') \<Rightarrow> (Some err, w')
      | (None, w2) \<Rightarrow>
          if \<not> noRecurse \<and> truthy_prop prop2 then
            (case prop2 of
               None \<Rightarrow> (None, w2)
             | Some p2 \<Rightarrow> connect w2 model2 p2 model1 (Some prop1) False True)
          else (None, w2))"
  by pat_completeness auto
termination
  by (relation "measure (\<lambda>(w, m1, p1, m2, p2, d, noRecurse). if noRecurse then 0 else 1)") auto

declare connect.simps [simp del]

text \<open>\<^verbatim>\<open>belongsToMany(model1, prop1, model2, prop2, deleteOnRemove)\<close>. Line 246 hands
  \<^verbatim>\<open>model1\<close> itself to \<^verbatim>\<open>trackRefs\<close>, where \<^verbatim>\<open>connect\<close> hands \<^verbatim>\<open>model1._Item\<close>; so
  \<^verbatim>\<open>trackRefs\<close> reads \<^verbatim>\<open>model1.prototype[refProps]\<close>, which throws a TypeError when the model
  object has no \<^verbatim>\<open>prototype\<close>, before anything is registered.\<close>

definition belongsToMany ::
  "world \<Rightarrow> model_id \<Rightarrow> propname \<Rightarrow> model_id \<Rightarrow> propname \<Rightarrow> bool \<Rightarrow> error option \<times> world" where
  "belongsToMany w model1 prop1 model2 prop2 deleteOnRemove =
     (case prototype (w model1) of
        None \<Rightarrow> (Some TypeError, w)
      | Some ItemClass \<Rightarrow>
     (case trackRefs ItemClass [prop1]
             [SetIDAction prop2]
             [if deleteOnRemove then DeleteItemAction else RemoveIDAction prop2] of
        Inl err \<Rightarrow> (Some err, w)
      | Inr cls \<Rightarrow>
     (let w1 = w(model1 := (w model1)\<lparr>prototype := Some cls\<rparr>) in
      case Meta (w1 model2) prop2 of
        None \<Rightarrow> (Some TypeError, w1)
      | Some meta2 \<Rightarrow>
          (None, w1(model2 := (w1 model2)\<lparr>Meta :=
                      (Meta (w1 model2))(prop2 \<mapsto> meta2\<lparr>refModel := Some model1\<rparr>)\<rparr>)))))"

subsection \<open>The delta engine\<close>

text \<open>An item as the engine sees it: its class (for \<^verbatim>\<open>item[refProps]\<close> and
  \<^verbatim>\<open>item[searchIndexProps]\<close>), \<^verbatim>\<open>item.model().Meta\<close>, the dirty test \<^verbatim>\<open>item.didUpdate\<close>, the
  persisted state that \<^verbatim>\<open>item.read(txn)\<close> resolves to, \<^verbatim>\<open>item.id()\<close> and
  \<^verbatim>\<open>item.uniqueName()\<close>.\<close>

record item =
  proto :: item_class
  model_Meta :: "propname \<rightharpoonup> prop_meta"
  didUpdate :: "propname \<Rightarrow> bool"
  read :: state
  item_id :: ident
  uniqueName :: string

text \<open>An instance held by the in-memory item store; \<^verbatim>\<open>getItemFromStore(ref)\<close> is a lookup
  that answers \<^verbatim>\<open>null\<close> for an unknown reference.\<close>

datatype cached = Cached (isLocalOnly: bool)

type_synonym item_store = "ref \<rightharpoonup> cached"

text \<open>What the engine asks of its collaborators: running a remove-action or an add-action
  of a property against a target, and saving a cached instance.\<close>

datatype event =
    RunRemove propname ref action
  | Save ref
  | RunAdd propname ref action

text \<open>The calls of a run together with its awaits: a call whose promise is awaited
  (\<^verbatim>\<open>await f()\<close>), tasks awaited one after the other, and tasks started together and
  awaited as a whole (\<^verbatim>\<open>await Promise.all([...])\<close>).\<close>

datatype task = Call event | Seq "task list" | Par "task list"

text \<open>The calls of a task, listed in the order in which the source writes them; this is
  not an order in time.\<close>

fun calls :: "task \<Rightarrow> event list" where
  "calls (Call ev) = [ev]"
| "calls (Seq ts) = concat (map calls ts)"
| "calls (Par ts) = concat (map calls ts)"

text \<open>A step of a run in time: a call is issued, or the promise it returned settles.\<close>

datatype step = Issue event | Settle event

definition sequences :: "step list set \<Rightarrow> step list set \<Rightarrow> step list set" where
  "sequences A B = (\<Union>x \<in> A. \<Union>y \<in> B. {x @ y})"

definition interleavings :: "step list set \<Rightarrow> step list set \<Rightarrow> step list set" where
  "interleavings A B = (\<Union>x \<in> A. \<Union>y \<in> B. shuffles x y)"

text \<open>The orders in which the steps of a task can happen. An awaited call settles before
  anything that follows it; tasks awaited one after the other run one after the other;
  the tasks under \<^verbatim>\<open>Promise.all\<close> advance in any interleaving, each suspending at its own
  awaits. Which interleaving a run takes depends on when the promises of the collaborators
  settle; it is one of these.\<close>

fun traces :: "task \<Rightarrow> step list set" where
  "traces (Call ev) = {[Issue ev, Settle ev]}"
| "traces (Seq ts) = foldr sequences (map traces ts) {[]}"
| "traces (Par ts) = foldr interleavings (map traces ts) {[]}"

text \<open>The call each action makes on the target record.\<close>

datatype field_update = arrayUnion ident | arrayRemove ident | SetTo ident | SetNull

datatype store_call = SetField ref propname field_update | DeleteRecord ref

fun run :: "action \<Rightarrow> ident \<Rightarrow> ref \<Rightarrow> error + store_call" where
  "run (Action p) source refItem = Inl UnimplementedError"
| "run (AppendIDAction p) source refItem = Inr (SetField refItem p (arrayUnion source))"
| "run (SetIDAction p) source refItem = Inr (SetField refItem p (SetTo source))"
| "run (RemoveIDAction p) source refItem = Inr (SetField refItem p (arrayRemove source))"
| "run (UnsetIDAction p) source refItem = Inr (SetField refItem p SetNull)"
| "run DeleteItemAction source refItem = Inr (DeleteRecord refItem)"

text \<open>\<^verbatim>\<open>state[e]\<close>: a missing key reads as \<^verbatim>\<open>undefined\<close>.\<close>

definition lookup :: "state \<Rightarrow> propname \<Rightarrow> jsval" where
  "lookup st e = (case st e of None \<Rightarrow> Undefined | Some v \<Rightarrow> v)"

text \<open>\<^verbatim>\<open>Array.isArray(e) ? e : e ? [e] : []\<close>; the empty string is falsy.\<close>

fun toArray :: "jsval \<Rightarrow> ident list" where
  "toArray (Arr xs) = xs"
| "toArray (Str s) = (if s = [] then [] else [s])"
| "toArray Undefined = []"
| "toArray Null = []"

text \<open>The normalization as the spec words it, to compare \<^verbatim>\<open>toArray\<close> with: absent and
  null give the empty sequence, a scalar a single-element sequence, an array itself.\<close>

fun normalized_as_specified :: "jsval \<Rightarrow> ident list" where
  "normalized_as_specified Undefined = []"
| "normalized_as_specified Null = []"
| "normalized_as_specified (Str s) = [s]"
| "normalized_as_specified (Arr xs) = xs"

text \<open>Modelled from the spec: \<^verbatim>\<open>notIn\<close> of \<^verbatim>\<open>@/utils/notIn\<close> is not among the sources;
  the spec describes the two filters as set differences over ids, so \<^verbatim>\<open>notIn(xs)\<close> is the
  test of not being an element of \<^verbatim>\<open>xs\<close>.\<close>

definition notIn :: "'a list \<Rightarrow> 'a \<Rightarrow> bool" where
  "notIn xs = (\<lambda>e. e \<notin> set xs)"

text \<open>Modelled from the spec: \<^verbatim>\<open>None\<close> of \<^verbatim>\<open>@/utils/none\<close> is not among the sources; the
  spec calls it the empty or absent state, in which every property reads as
  \<^verbatim>\<open>undefined\<close>.\<close>

definition None_state :: state where
  "None_state = Map.empty"

text \<open>\<^verbatim>\<open>await Promise.all(xs.map(async (x) => ...))\<close>: the bodies are started together and
  awaited as a whole; a body that throws makes the whole throw.\<close>

definition Promise_all :: "('a \<Rightarrow> error + task) \<Rightarrow> 'a list \<Rightarrow> error + task" where
  "Promise_all body xs =
     (case map_throwing body xs of Inl err \<Rightarrow> Inl err | Inr ts \<Rightarrow> Inr (Par ts))"

text \<open>\<^verbatim>\<open>meta.type === "array" ? meta.arrayType.refModel : meta.refModel\<close>, on which
  \<^verbatim>\<open>.item(id)\<close> or \<^verbatim>\<open>.ref(id)\<close> is then called: a missing \<^verbatim>\<open>Meta\<close> entry, array type or
  reference model throws.\<close>

definition resolve_refModel :: "item \<Rightarrow> propname \<Rightarrow> error + model_id" where
  "resolve_refModel it e =
     (case model_Meta it e of
        None \<Rightarrow> Inl TypeError
      | Some meta \<Rightarrow>
          if mtype meta = ''array'' then
            (case arrayType meta of
               None \<Rightarrow> Inl TypeError
             | Some t \<Rightarrow> (case elem_refModel t of None \<Rightarrow> Inl TypeError | Some m \<Rightarrow> Inr m))
          else (case refModel meta of None \<Rightarrow> Inl TypeError | Some m \<Rightarrow> Inr m))"

text \<open>\<^verbatim>\<open>await Promise.all(Actions[e]?.map?.(async (action) => { await action.run(...) }))\<close>;
  without an entry for \<^verbatim>\<open>e\<close> the argument of \<^verbatim>\<open>Promise.all\<close> is \<^verbatim>\<open>undefined\<close>, which
  rejects.\<close>

definition run_actions ::
  "(action \<Rightarrow> event) \<Rightarrow> item \<Rightarrow> ref \<Rightarrow> action list option \<Rightarrow> error + task" where
  "run_actions ev it refItem actions =
     (case actions of
        None \<Rightarrow> Inl TypeError
      | Some acts \<Rightarrow>
          Promise_all
            (\<lambda>a. case run a (item_id it) refItem of
                    Inl err \<Rightarrow> Inl err
                  | Inr c \<Rightarrow> Inr (Call (ev a)))
            acts)"

text \<open>The body run for one removed id (lines 30 to 40).\<close>

definition on_removed :: "item \<Rightarrow> registry \<Rightarrow> propname \<Rightarrow> ident \<Rightarrow> error + task" where
  "on_removed it r e i =
     (case resolve_refModel it e of
        Inl err \<Rightarrow> Inl err
      | Inr target \<Rightarrow>
          run_actions (RunRemove e (target, i)) it (target, i) (RemoveActions r e))"

text \<open>The body run for one added id (lines 43 to 57): the save of a cached instance that
  is local only is awaited, then the add-actions are started and awaited.\<close>

definition on_added ::
  "item_store \<Rightarrow> item \<Rightarrow> registry \<Rightarrow> propname \<Rightarrow> ident \<Rightarrow> error + task" where
  "on_added getItemFromStore it r e i =
     (case resolve_refModel it e of
        Inl err \<Rightarrow> Inl err
      | Inr target \<Rightarrow>
          (let created = getItemFromStore (target, i);
               saved = (case created of
                          None \<Rightarrow> []
                        | Some c \<Rightarrow> if isLocalOnly c then [Call (Save (target, i))] else [])
           in case run_actions (RunAdd e (target, i)) it (target, i) (AddActions r e) of
                Inl err \<Rightarrow> Inl err
              | Inr t \<Rightarrow> Inr (Seq (saved @ [t]))))"

text \<open>The body run for one tracked property (lines 23 to 59): the bodies of the removed
  ids are awaited, then those of the added ids.\<close>

definition on_prop ::
  "item_store \<Rightarrow> item \<Rightarrow> registry \<Rightarrow> state \<Rightarrow> bool \<Rightarrow> propname \<Rightarrow> error + task" where
  "on_prop getItemFromStore it r newState isUpdate e =
     (if isUpdate \<and> \<not> didUpdate it e then Inr (Seq [])
      else
        (let newValue = toArray (lookup newState e);
             oldValue = toArray (lookup (read it) e);
             added = filter (notIn oldValue) newValue;
             removed = filter (notIn newValue) oldValue
         in case Promise_all (on_removed it r e) removed of
              Inl err \<Rightarrow> Inl err
            | Inr t1 \<Rightarrow>
                (case Promise_all (on_added getItemFromStore it r e) added of
                   Inl err \<Rightarrow> Inl err
                 | Inr t2 \<Rightarrow> Inr (Seq [t1, t2]))))"

definition onRefsUpdateItem ::
  "item_store \<Rightarrow> item \<Rightarrow> state \<Rightarrow> bool \<Rightarrow> error + task" where
  "onRefsUpdateItem getItemFromStore it newState isUpdate =
     (case refProps (proto it) of
        None \<Rightarrow> Inr (Seq [])
      | Some r \<Rightarrow> Promise_all (on_prop getItemFromStore it r newState isUpdate) (props r))"

definition onRefsAddItem :: "item_store \<Rightarrow> item \<Rightarrow> state \<Rightarrow> error + task" where
  "onRefsAddItem getItemFromStore it newState =
     onRefsUpdateItem getItemFromStore it newState False"

definition onRefsDeleteItem :: "item_store \<Rightarrow> item \<Rightarrow> error + task" where
  "onRefsDeleteItem getItemFromStore it =
     onRefsUpdateItem getItemFromStore it None_state False"

subsection \<open>The search index adapter\<close>

text \<open>\<^verbatim>\<open>_id\<close>: the unique name with every \<^verbatim>\<open>/\<close> replaced by \<^verbatim>\<open>^\<close>.\<close>

definition index_id :: "item \<Rightarrow> ident" where
  "index_id it = map (\<lambda>c. if c = CHR ''/'' then CHR ''^'' else c) (uniqueName it)"

text \<open>Modelled from the spec: \<^verbatim>\<open>hasProp\<close> of \<^verbatim>\<open>@/utils/hasProp\<close> is not among the sources;
  the spec speaks of a property absent from the candidate, so \<^verbatim>\<open>hasProp(x, e)\<close> tests that
  \<^verbatim>\<open>x\<close> has the key \<^verbatim>\<open>e\<close>.\<close>

definition hasProp :: "state \<Rightarrow> propname \<Rightarrow> bool" where
  "hasProp x e \<longleftrightarrow> x e \<noteq> None"

text \<open>Lines 16 to 24: \<^verbatim>\<open>x\<close> starts as a copy of the new state; every body tests
  \<^verbatim>\<open>hasProp\<close> before the first of them resumes, and each property found missing is then
  assigned the value read from the persisted state.\<close>

definition fill_from_persisted :: "item \<Rightarrow> state \<Rightarrow> propname list \<Rightarrow> state" where
  "fill_from_persisted it newState ps =
     (let x = newState;
          missing = filter (\<lambda>e. \<not> hasProp x e) ps
      in foldl (\<lambda>x e. x(e \<mapsto> lookup (read it) e)) x missing)"

text \<open>\<^verbatim>\<open>updateInTxn\<close>: the upsert handed to \<^verbatim>\<open>SearchIndex.getOrCreate\<close>, as the id of the index
  document and the entry that the indexer computes for it, or nothing.\<close>

definition updateInTxn :: "item \<Rightarrow> state \<Rightarrow> (ident \<times> index_entry) option" where
  "updateInTxn it newState =
     (case searchIndexProps (proto it) of
        None \<Rightarrow> None
      | Some si \<Rightarrow>
          if list_ex (didUpdate it) (index_props si) then
            (let x = fill_from_persisted it newState (index_props si)
             in Some (index_id it, indexer si (index_id it) x))
          else None)"

text \<open>\<^verbatim>\<open>Array.prototype.join\<close> and \<^verbatim>\<open>String(v)\<close> on the values of a state.\<close>

fun join :: "string \<Rightarrow> string list \<Rightarrow> string" where
  "join sep [] = []"
| "join sep [x] = x"
| "join sep (x # y # ys) = x @ sep @ join sep (y # ys)"

fun String_of :: "jsval \<Rightarrow> string" where
  "String_of Undefined = ''undefined''"
| "String_of Null = ''null''"
| "String_of (Str s) = s"
| "String_of (Arr xs) = join '','' xs"

text \<open>\<^verbatim>\<open>v ?? d\<close>.\<close>

fun nullish :: "jsval \<Rightarrow> jsval \<Rightarrow> jsval" where
  "nullish Undefined d = d"
| "nullish Null d = d"
| "nullish v d = v"

text \<open>Modelled from the spec: \<^verbatim>\<open>uniq\<close> of \<^verbatim>\<open>@/utils/uniq\<close> is not among the sources; the
  spec says the tokens are deduplicated, so \<^verbatim>\<open>.filter(uniq)\<close> keeps the first occurrence of
  every token.\<close>

definition filter_uniq :: "'a list \<Rightarrow> 'a list" where
  "filter_uniq xs = rev (remdups (rev xs))"

text \<open>The text that \<^verbatim>\<open>createIndexEntry\<close> tokenizes:
  \<^verbatim>\<open>props.map((e) => String(state[e] ?? "")).join(" ")\<close>.\<close>

definition index_text :: "propname list \<Rightarrow> state \<Rightarrow> string" where
  "index_text ps st = join '' '' (map (\<lambda>e. String_of (nullish (lookup st e) (Str []))) ps)"

text \<open>\<^verbatim>\<open>createIndexEntry(props, item, state, prev)\<close>; the tokenizer \<^verbatim>\<open>parseQuery\<close> of
  \<^verbatim>\<open>@/utils/createQuery\<close> is a parameter.\<close>

definition createIndexEntry ::
  "(string \<Rightarrow> string list list) \<Rightarrow> propname list \<Rightarrow> ident \<Rightarrow> state \<Rightarrow> index_entry option
     \<Rightarrow> index_entry" where
  "createIndexEntry parseQuery ps it st prev =
     \<lparr>tokens =
        filter_uniq
          (concat (parseQuery (index_text ps st))
           @ (case prev of None \<Rightarrow> [] | Some p \<Rightarrow> tokens p))\<rparr>"

text \<open>\<^verbatim>\<open>indexForSearch(ItemClass, props, createIndex)\<close>: the new indexer hands the entry of
  the previous one, if any, to \<^verbatim>\<open>createIndex\<close>.\<close>

definition indexForSearch ::
  "item_class \<Rightarrow> propname list
     \<Rightarrow> (propname list \<Rightarrow> ident \<Rightarrow> state \<Rightarrow> index_entry option \<Rightarrow> index_entry) \<Rightarrow> item_class" where
  "indexForSearch ItemClass ps createIndex =
     (let prev = searchIndexProps ItemClass
      in ItemClass\<lparr>
           triggersUpdateTxn := triggersUpdateTxn ItemClass @ [(ps, False)],
           searchIndexProps := Some \<lparr>
             index_props = (case prev of Some p \<Rightarrow> index_props p @ ps | None \<Rightarrow> ps),
             indexer = (\<lambda>i st. createIndex ps i st (map_option (\<lambda>p. indexer p i st) prev))\<rparr>\<rparr>)"

subsection \<open>Predicates on a run of the engine\<close>

text \<open>In an order of steps, every add-action issued against a target that the item store
  holds as local only comes after the save of that target has settled.\<close>

definition saves_first :: "item_store \<Rightarrow> step list \<Rightarrow> bool" where
  "saves_first st tr \<longleftrightarrow>
     (\<forall>pre e target a post.
        tr = pre @ Issue (RunAdd e target a) # post
          \<longrightarrow> (\<exists>c. st target = Some c \<and> isLocalOnly c)
          \<longrightarrow> Settle (Save target) \<in> set pre)"

text \<open>An action other than the abstract base can run.\<close>

fun runnable :: "action \<Rightarrow> bool" where
  "runnable (Action p) = False"
| "runnable a = True"

text \<open>An item is well configured for a registry when every tracked property resolves to a
  reference model and has both action lists, made of runnable actions: then no step of
  the engine throws.\<close>

definition well_configured :: "item \<Rightarrow> registry \<Rightarrow> bool" where
  "well_configured it r =
     list_all (\<lambda>e.
        (case resolve_refModel it e of Inl err \<Rightarrow> False | Inr m \<Rightarrow> True)
        \<and> (case AddActions r e of None \<Rightarrow> False | Some acts \<Rightarrow> list_all runnable acts)
        \<and> (case RemoveActions r e of None \<Rightarrow> False | Some acts \<Rightarrow> list_all runnable acts))
       (props r)"

subsection \<open>What a class has registered for a property\<close>

definition addActions_of :: "item_class \<Rightarrow> propname \<Rightarrow> action list option" where
  "addActions_of cls e = (case refProps cls of None \<Rightarrow> None | Some r \<Rightarrow> AddActions r e)"

definition removeActions_of :: "item_class \<Rightarrow> propname \<Rightarrow> action list option" where
  "removeActions_of cls e = (case refProps cls of None \<Rightarrow> None | Some r \<Rightarrow> RemoveActions r e)"

subsection \<open>Concrete classes and registries\<close>

text \<open>A class that has declared nothing yet, and a class whose registry tracks
  \<^verbatim>\<open>bId\<close> with one add-action and one remove-action.\<close>

definition new_class :: item_class where
  "new_class = \<lparr>refProps = None, searchIndexProps = None, triggersUpdateTxn = []\<rparr>"

definition registry_bId :: registry where
  "registry_bId =
     \<lparr>props = [''bId''],
      AddActions = [''bId'' \<mapsto> [SetIDAction ''aId'']],
      RemoveActions = [''bId'' \<mapsto> [UnsetIDAction ''aId'']]\<rparr>"

definition class_bId :: item_class where
  "class_bId =
     \<lparr>refProps = Some registry_bId, searchIndexProps = None,
      triggersUpdateTxn = [([''bId''], True)]\<rparr>"

text \<open>Two models, \<^verbatim>\<open>A\<close> with a scalar property \<^verbatim>\<open>bId\<close> and an array property \<^verbatim>\<open>bIds\<close>,
  and \<^verbatim>\<open>B\<close> with \<^verbatim>\<open>aId\<close> and \<^verbatim>\<open>aIds\<close>; neither class has declared anything.\<close>

definition scalar_meta :: prop_meta where
  "scalar_meta = \<lparr>mtype = ''string'', refModel = None, arrayType = None\<rparr>"

definition array_meta :: prop_meta where
  "array_meta = \<lparr>mtype = ''array'', refModel = None, arrayType = Some \<lparr>elem_refModel = None\<rparr>\<rparr>"

definition world_AB :: world where
  "world_AB = (\<lambda>m.
     if m = ''A''
     then \<lparr>Meta = [''bId'' \<mapsto> scalar_meta, ''bIds'' \<mapsto> array_meta], Item = new_class,
           prototype = None\<rparr>
     else \<lparr>Meta = [''aId'' \<mapsto> scalar_meta, ''aIds'' \<mapsto> array_meta], Item = new_class,
           prototype = None\<rparr>)"

text \<open>An item \<^verbatim>\<open>a1\<close> of \<^verbatim>\<open>A\<close> whose class tracks \<^verbatim>\<open>bIds\<close>, persisted with the references
  \<^verbatim>\<open>b1\<close> and \<^verbatim>\<open>b2\<close>; a new state with \<^verbatim>\<open>b2\<close> and \<^verbatim>\<open>b3\<close>; an item store holding \<^verbatim>\<open>b3\<close> as
  created but not saved.\<close>

definition registry_bIds :: registry where
  "registry_bIds =
     \<lparr>props = [''bIds''],
      AddActions = [''bIds'' \<mapsto> [AppendIDAction ''aIds'']],
      RemoveActions = [''bIds'' \<mapsto> [RemoveIDAction ''aIds'']]\<rparr>"

definition item_a1 :: item where
  "item_a1 =
     \<lparr>proto = \<lparr>refProps = Some registry_bIds, searchIndexProps = None,
                triggersUpdateTxn = [([''bIds''], True)]\<rparr>,
      model_Meta = [''bIds'' \<mapsto>
         \<lparr>mtype = ''array'', refModel = None, arrayType = Some \<lparr>elem_refModel = Some ''B''\<rparr>\<rparr>],
      didUpdate = (\<lambda>e. e = ''bIds''),
      read = [''bIds'' \<mapsto> Arr [''b1'', ''b2'']],
      item_id = ''a1'',
      uniqueName = ''A/a1''\<rparr>"

definition newState_a1 :: state where
  "newState_a1 = [''bIds'' \<mapsto> Arr [''b2'', ''b3'']]"

definition store_b3 :: item_store where
  "store_b3 = [(''B'', ''b3'') \<mapsto> Cached True]"

text \<open>An item \<^verbatim>\<open>a2\<close> of \<^verbatim>\<open>A\<close> whose class tracks the scalar property \<^verbatim>\<open>bId\<close>, persisted with
  the reference \<^verbatim>\<open>b1\<close>; new states that set \<^verbatim>\<open>bId\<close> to \<^verbatim>\<open>b2\<close> and to the empty string.\<close>

definition item_a2 :: item where
  "item_a2 =
     \<lparr>proto = class_bId,
      model_Meta = [''bId'' \<mapsto> \<lparr>mtype = ''string'', refModel = Some ''B'', arrayType = None\<rparr>],
      didUpdate = (\<lambda>e. e = ''bId''),
      read = [''bId'' \<mapsto> Str ''b1''],
      item_id = ''a2'',
      uniqueName = ''A/a2''\<rparr>"

definition newState_a2 :: state where
  "newState_a2 = [''bId'' \<mapsto> Str ''b2'']"

definition newState_empty_string :: state where
  "newState_empty_string = [''bId'' \<mapsto> Str []]"

text \<open>A new state for \<^verbatim>\<open>a1\<close> that adds \<^verbatim>\<open>b3\<close>, held by the store as created but not saved,
  and \<^verbatim>\<open>b4\<close>, which the store does not hold.\<close>

definition newState_two_added :: state where
  "newState_two_added = [''bIds'' \<mapsto> Arr [''b1'', ''b2'', ''b3'', ''b4'']]"

text \<open>A post indexed on \<^verbatim>\<open>title\<close> and \<^verbatim>\<open>body\<close>, persisted with the title \<^verbatim>\<open>Foo Bar\<close>, of which
  only the body is updated; the tokenizer used here returns the whole text as one token.\<close>

definition whole_text :: "string \<Rightarrow> string list list" where
  "whole_text s = [[s]]"

definition item_post :: item where
  "item_post =
     \<lparr>proto = indexForSearch new_class [''title'', ''body''] (createIndexEntry whole_text),
      model_Meta = Map.empty,
      didUpdate = (\<lambda>e. e = ''body''),
      read = [''title'' \<mapsto> Str ''Foo Bar'', ''body'' \<mapsto> Str ''old''],
      item_id = ''p1'',
      uniqueName = ''posts/p1''\<rparr>"

definition newState_post :: state where
  "newState_post = [''body'' \<mapsto> Str ''new'']"

section \<open>Properties of the reference registry\<close>

lemma map_throwing_merged_None:
  "map_throwing (merged_entry None acts dflt) ps = Inr (map (\<lambda>e. (e, dflt)) ps)"
  by (induction ps) (simp_all add: merged_entry_def)

lemma map_throwing_merged_Some:
  "map_throwing (merged_entry (Some m) acts dflt) ps =
     (if set ps \<subseteq> dom m then Inr (map (\<lambda>e. (e, the (m e) @ acts)) ps) else Inl TypeError)"
  by (induction ps) (auto simp: merged_entry_def split: option.splits)

lemma Object_assign_map:
  "Object_assign target (map (\<lambda>e. (e, g e)) ps) k =
     (if k \<in> set ps then Some (g k) else target k)"
  by (induction ps arbitrary: target) auto

lemma dom_Object_assign_map:
  "dom (Object_assign target (map (\<lambda>e. (e, g e)) ps)) = dom target \<union> set ps"
  by (auto simp: Object_assign_map dom_def)

text \<open>The first declaration on a class: both tables receive the add-actions.\<close>

lemma trackRefs_first:
  "refProps cls = None \<Longrightarrow>
   trackRefs cls ps adds rems =
     Inr (cls\<lparr>triggersUpdateTxn := triggersUpdateTxn cls @ [(ps, True)],
              refProps := Some \<lparr>props = ps,
                 AddActions = Object_assign Map.empty (map (\<lambda>e. (e, adds)) ps),
                 RemoveActions = Object_assign Map.empty (map (\<lambda>e. (e, adds)) ps)\<rparr>\<rparr>)"
  by (simp add: trackRefs_def map_throwing_merged_None)

text \<open>A later declaration: the lists are appended to the prior ones, provided every
  listed property has prior lists.\<close>

lemma trackRefs_again:
  "refProps cls = Some prev \<Longrightarrow>
   trackRefs cls ps adds rems =
     (if set ps \<subseteq> dom (AddActions prev) \<and> set ps \<subseteq> dom (RemoveActions prev) then
        Inr (cls\<lparr>triggersUpdateTxn := triggersUpdateTxn cls @ [(ps, True)],
                 refProps := Some \<lparr>props = props prev @ ps,
                   AddActions = Object_assign (AddActions prev)
                     (map (\<lambda>e. (e, the (AddActions prev e) @ adds)) ps),
                   RemoveActions = Object_assign (RemoveActions prev)
                     (map (\<lambda>e. (e, the (RemoveActions prev e) @ rems)) ps)\<rparr>\<rparr>)
      else Inl TypeError)"
  by (simp add: trackRefs_def map_throwing_merged_Some)

text \<open>Well-formedness is kept by every declaration that succeeds.\<close>

lemma trackRefs_wf:
  assumes "trackRefs cls ps adds rems = Inr cls'"
    and "\<And>prev. refProps cls = Some prev \<Longrightarrow> wf_registry prev"
  shows "\<exists>r. refProps cls' = Some r \<and> wf_registry r"
proof (cases "refProps cls")
  case None
  with assms(1) show ?thesis
    by (auto simp: trackRefs_first wf_registry_def dom_Object_assign_map)
next
  case (Some prev)
  with assms show ?thesis
    by (auto simp: trackRefs_again wf_registry_def dom_Object_assign_map split: if_splits)
qed

text \<open>With a prior registry in which the property is tracked, a declaration appends its
  add-actions and its remove-actions to the prior lists.\<close>

lemma trackRefs_appends:
  assumes "refProps cls = Some prev"
    and "AddActions prev e = Some as" and "RemoveActions prev e = Some rs"
  shows "\<exists>cls' r. trackRefs cls [e] adds rems = Inr cls' \<and> refProps cls' = Some r
           \<and> AddActions r e = Some (as @ adds) \<and> RemoveActions r e = Some (rs @ rems)"
  using assms by (simp add: trackRefs_again dom_def)

text \<open>C2. A call of \<^verbatim>\<open>trackRefs\<close> is to register, for each listed property, the prior
  remove-actions (none without a prior registry) followed by the remove-actions passed.
  On a class without a prior registry the code registers the add-actions passed as the
  remove-actions: declaring \<^verbatim>\<open>bId\<close> with the add-action \<^verbatim>\<open>SetID(aId)\<close> and the remove-action
  \<^verbatim>\<open>UnsetID(aId)\<close> leaves \<^verbatim>\<open>SetID(aId)\<close> in both tables.\<close>

theorem trackRefs_first_call_registers_addActions_for_removal:
  "trackRefs new_class [''bId''] [SetIDAction ''aId''] [UnsetIDAction ''aId''] =
     Inr \<lparr>refProps = Some
            \<lparr>props = [''bId''],
             AddActions = [''bId'' \<mapsto> [SetIDAction ''aId'']],
             RemoveActions = [''bId'' \<mapsto> [SetIDAction ''aId'']]\<rparr>,
          searchIndexProps = None,
          triggersUpdateTxn = [([''bId''], True)]\<rparr>"
  by (simp add: trackRefs_first new_class_def)

text \<open>C10. On a class that already has a (well-formed) registry, \<^verbatim>\<open>trackRefs\<close> fails with a
  TypeError exactly when some listed property is not tracked by that registry; nothing is
  registered then, and when every listed property is tracked the call succeeds.\<close>

theorem trackRefs_untracked_property_fails:
  assumes "refProps cls = Some prev" and "wf_registry prev"
  shows "(trackRefs cls ps adds rems = Inl TypeError \<longleftrightarrow> (\<exists>e \<in> set ps. e \<notin> set (props prev)))
       \<and> ((\<forall>e \<in> set ps. e \<in> set (props prev)) \<longleftrightarrow> (\<exists>cls'. trackRefs cls ps adds rems = Inr cls'))"
  using assms by (auto simp: trackRefs_again wf_registry_def)

theorem trackRefs_untracked_property_fails_witness:
  "trackRefs class_bId [''bId'', ''cId''] [AppendIDAction ''aIds''] [] = Inl TypeError
   \<and> (\<exists>cls'. trackRefs class_bId [''bId''] [AppendIDAction ''aIds''] [] = Inr cls')"
proof -
  have r: "refProps class_bId = Some registry_bId"
    by (simp add: class_bId_def)
  have wf: "wf_registry registry_bId"
    by (simp add: wf_registry_def registry_bId_def)
  show ?thesis
    using trackRefs_untracked_property_fails [OF r wf, of "[''bId'', ''cId'']" "[AppendIDAction ''aIds'']" "[]"]
          trackRefs_untracked_property_fails [OF r wf, of "[''bId'']" "[AppendIDAction ''aIds'']" "[]"]
    by (simp add: registry_bId_def)
qed

section \<open>Properties of the delta engine\<close>

subsection \<open>Results of the combinators\<close>

lemma map_throwing_of_Inr: "map f xs = map Inr ys \<Longrightarrow> map_throwing f xs = Inr ys"
  by (induction xs arbitrary: ys) auto

lemma map_throwing_to_Inr: "map_throwing f xs = Inr ys \<Longrightarrow> map f xs = map Inr ys"
  by (induction xs arbitrary: ys) (auto split: sum.splits)

lemma map_throwing_Inl: "map_throwing f xs = Inl err \<Longrightarrow> \<exists>x \<in> set xs. f x = Inl err"
  by (induction xs) (auto split: sum.splits)

lemma Promise_all_Inr:
  "Promise_all body xs = Inr t \<longleftrightarrow> (\<exists>ts. map body xs = map Inr ts \<and> t = Par ts)"
proof
  assume "Promise_all body xs = Inr t"
  then obtain ts where "map_throwing body xs = Inr ts" and "t = Par ts"
    by (auto simp: Promise_all_def split: sum.splits)
  then show "\<exists>ts. map body xs = map Inr ts \<and> t = Par ts"
    using map_throwing_to_Inr by blast
next
  assume "\<exists>ts. map body xs = map Inr ts \<and> t = Par ts"
  then obtain ts where ts: "map body xs = map Inr ts" and t: "t = Par ts"
    by blast
  from ts have "map_throwing body xs = Inr ts"
    by (rule map_throwing_of_Inr)
  with t show "Promise_all body xs = Inr t"
    by (simp add: Promise_all_def)
qed

lemma Promise_all_Inl: "Promise_all body xs = Inl err \<Longrightarrow> \<exists>x \<in> set xs. body x = Inl err"
  by (auto simp: Promise_all_def split: sum.splits dest: map_throwing_Inl)

text \<open>The bodies of a \<^verbatim>\<open>Promise.all\<close> that returns: each body returned, and the tasks are
  theirs.\<close>

lemma Promise_all_bodies:
  assumes "Promise_all body xs = Inr t"
  shows "\<exists>ts. t = Par ts
           \<and> (\<forall>x \<in> set xs. \<exists>t'. body x = Inr t' \<and> t' \<in> set ts)
           \<and> (\<forall>t' \<in> set ts. \<exists>x \<in> set xs. body x = Inr t')"
proof -
  from assms obtain ts where ts: "map body xs = map Inr ts" and t: "t = Par ts"
    by (auto simp: Promise_all_Inr)
  have len: "length ts = length xs" using ts by (metis length_map)
  have nth: "\<And>k. k < length xs \<Longrightarrow> body (xs ! k) = Inr (ts ! k)"
    using ts len by (metis nth_map)
  have a: "\<exists>t'. body x = Inr t' \<and> t' \<in> set ts" if "x \<in> set xs" for x
  proof -
    from that obtain k where "k < length xs" "xs ! k = x" by (auto simp: in_set_conv_nth)
    with nth[of k] len show ?thesis by (auto simp: in_set_conv_nth)
  qed
  have b: "\<exists>x \<in> set xs. body x = Inr t'" if "t' \<in> set ts" for t'
  proof -
    from that obtain k where "k < length ts" "ts ! k = t'" by (auto simp: in_set_conv_nth)
    with nth[of k] len show ?thesis by (auto intro!: bexI[of _ "xs ! k"])
  qed
  from t a b show ?thesis by blast
qed

lemma Promise_all_set:
  assumes "Promise_all body xs = Inr t"
  shows "ev \<in> set (calls t) \<longleftrightarrow> (\<exists>x \<in> set xs. \<exists>t'. body x = Inr t' \<and> ev \<in> set (calls t'))"
proof -
  from Promise_all_bodies[OF assms] obtain ts where t: "t = Par ts"
    and a: "\<And>x. x \<in> set xs \<Longrightarrow> \<exists>t'. body x = Inr t' \<and> t' \<in> set ts"
    and b: "\<And>t'. t' \<in> set ts \<Longrightarrow> \<exists>x \<in> set xs. body x = Inr t'"
    by blast
  show ?thesis
  proof
    assume "ev \<in> set (calls t)"
    then obtain t' where "t' \<in> set ts" "ev \<in> set (calls t')" using t by auto
    with b show "\<exists>x \<in> set xs. \<exists>t'. body x = Inr t' \<and> ev \<in> set (calls t')" by blast
  next
    assume "\<exists>x \<in> set xs. \<exists>t'. body x = Inr t' \<and> ev \<in> set (calls t')"
    then obtain x t' where x: "x \<in> set xs" "body x = Inr t'" "ev \<in> set (calls t')" by blast
    from a[OF x(1)] x(2) have "t' \<in> set ts" by auto
    with x(3) t show "ev \<in> set (calls t)" by auto
  qed
qed

lemma run_actions_Inr:
  assumes a: "run_actions ev it refItem actions = Inr t"
  shows "\<exists>acts. actions = Some acts \<and> t = Par (map (\<lambda>a. Call (ev a)) acts)"
proof -
  from a obtain acts where acts: "actions = Some acts"
    by (auto simp: run_actions_def split: option.splits)
  with a obtain ts where
    ts: "map (\<lambda>a. case run a (item_id it) refItem of Inl err \<Rightarrow> Inl err
                    | Inr c \<Rightarrow> Inr (Call (ev a))) acts = map Inr ts"
    and t: "t = Par ts"
    by (auto simp: run_actions_def Promise_all_Inr)
  from ts have "ts = map (\<lambda>a. Call (ev a)) acts"
    by (induction acts arbitrary: ts) (auto split: sum.splits)
  with t acts show ?thesis by simp
qed

lemma run_actions_Inl:
  assumes a: "run_actions ev it refItem actions = Inl err"
  shows "err \<noteq> InvalidParameters"
proof -
  have r: "\<And>a s t e. run a s t = Inl e \<Longrightarrow> e = UnimplementedError"
    subgoal for a s t e by (cases a) auto
    done
  from a show ?thesis
    by (auto simp: run_actions_def split: option.splits sum.splits dest!: Promise_all_Inl r)
qed

lemma resolve_refModel_Inl: "resolve_refModel it e = Inl err \<Longrightarrow> err = TypeError"
  by (auto simp: resolve_refModel_def split: option.splits if_splits)

lemma on_removed_Inr:
  "on_removed it r e i = Inr t \<Longrightarrow>
     \<exists>m acts. resolve_refModel it e = Inr m \<and> RemoveActions r e = Some acts
        \<and> t = Par (map (\<lambda>a. Call (RunRemove e (m, i) a)) acts)"
  by (auto simp: on_removed_def split: sum.splits dest: run_actions_Inr)

lemma on_added_Inr:
  assumes a: "on_added st it r e i = Inr t"
  shows "\<exists>m acts. resolve_refModel it e = Inr m \<and> AddActions r e = Some acts
        \<and> t = Seq ((if \<exists>c. st (m, i) = Some c \<and> isLocalOnly c then [Call (Save (m, i))] else [])
                    @ [Par (map (\<lambda>a. Call (RunAdd e (m, i) a)) acts)])"
proof -
  from a obtain m where m: "resolve_refModel it e = Inr m"
    by (auto simp: on_added_def split: sum.splits)
  with a obtain t' where t': "run_actions (RunAdd e (m, i)) it (m, i) (AddActions r e) = Inr t'"
    by (auto simp: on_added_def Let_def split: sum.splits)
  then obtain acts where acts: "AddActions r e = Some acts"
      "t' = Par (map (\<lambda>a. Call (RunAdd e (m, i) a)) acts)"
    by (auto dest: run_actions_Inr)
  have "t = Seq ((if \<exists>c. st (m, i) = Some c \<and> isLocalOnly c then [Call (Save (m, i))] else [])
                 @ [t'])"
    using a m t' by (cases "st (m, i)") (auto simp: on_added_def Let_def)
  with m acts show ?thesis by blast
qed

lemma calls_actions: "calls (Par (map (\<lambda>a. Call (ev a)) acts)) = map ev acts"
  by (induction acts) simp_all

lemma on_removed_calls:
  "on_removed it r e i = Inr t \<Longrightarrow>
     \<exists>m acts. resolve_refModel it e = Inr m \<and> RemoveActions r e = Some acts
        \<and> calls t = map (RunRemove e (m, i)) acts"
  using calls_actions by (fastforce dest!: on_removed_Inr)

lemma on_added_calls:
  "on_added st it r e i = Inr t \<Longrightarrow>
     \<exists>m acts. resolve_refModel it e = Inr m \<and> AddActions r e = Some acts
        \<and> calls t = (if \<exists>c. st (m, i) = Some c \<and> isLocalOnly c then [Save (m, i)] else [])
                     @ map (RunAdd e (m, i)) acts"
proof -
  assume "on_added st it r e i = Inr t"
  from on_added_Inr[OF this] obtain m acts where
    m: "resolve_refModel it e = Inr m" "AddActions r e = Some acts" and
    t: "t = Seq ((if \<exists>c. st (m, i) = Some c \<and> isLocalOnly c then [Call (Save (m, i))] else [])
                 @ [Par (map (\<lambda>a. Call (RunAdd e (m, i) a)) acts)])"
    by blast
  have "calls t = (if \<exists>c. st (m, i) = Some c \<and> isLocalOnly c then [Save (m, i)] else [])
                     @ map (RunAdd e (m, i)) acts"
    unfolding t using calls_actions[of "RunAdd e (m, i)" acts] by simp
  with m show ?thesis by blast
qed

lemma on_removed_Inl: "on_removed it r e i = Inl err \<Longrightarrow> err \<noteq> InvalidParameters"
  by (auto simp: on_removed_def split: sum.splits dest: run_actions_Inl resolve_refModel_Inl)

lemma on_added_Inl: "on_added st it r e i = Inl err \<Longrightarrow> err \<noteq> InvalidParameters"
  by (auto simp: on_added_def Let_def split: sum.splits dest: run_actions_Inl resolve_refModel_Inl)

lemma on_prop_Inl: "on_prop st it r ns u e = Inl err \<Longrightarrow> err \<noteq> InvalidParameters"
  by (auto simp: on_prop_def Let_def split: sum.splits if_splits
      dest!: Promise_all_Inl dest: on_removed_Inl on_added_Inl)

lemma onRefsUpdateItem_Inl: "onRefsUpdateItem st it ns u = Inl err \<Longrightarrow> err \<noteq> InvalidParameters"
  by (auto simp: onRefsUpdateItem_def split: option.splits dest!: Promise_all_Inl dest: on_prop_Inl)

subsection \<open>Which calls a run contains\<close>

lemma Promise_all_each:
  assumes "Promise_all body xs = Inr t" and "x \<in> set xs"
  shows "\<exists>t'. body x = Inr t'"
  using Promise_all_bodies[OF assms(1)] assms(2) by blast

text \<open>The parts of the task of one property that is processed.\<close>

lemma on_prop_parts:
  assumes "on_prop st it r ns u e = Inr t" and "u \<longrightarrow> didUpdate it e"
  obtains t1 t2 where
    "Promise_all (on_removed it r e)
       (filter (notIn (toArray (lookup ns e))) (toArray (lookup (read it) e))) = Inr t1"
    "Promise_all (on_added st it r e)
       (filter (notIn (toArray (lookup (read it) e))) (toArray (lookup ns e))) = Inr t2"
    "t = Seq [t1, t2]"
  using assms by (auto simp: on_prop_def Let_def split: sum.splits)

lemma on_prop_set:
  assumes "on_prop st it r ns u e = Inr t"
  shows "ev \<in> set (calls t) \<longleftrightarrow>
     (u \<longrightarrow> didUpdate it e) \<and>
     ((\<exists>i \<in> set (toArray (lookup (read it) e)) - set (toArray (lookup ns e)).
          \<exists>t'. on_removed it r e i = Inr t' \<and> ev \<in> set (calls t'))
      \<or> (\<exists>i \<in> set (toArray (lookup ns e)) - set (toArray (lookup (read it) e)).
          \<exists>t'. on_added st it r e i = Inr t' \<and> ev \<in> set (calls t')))"
proof (cases "u \<and> \<not> didUpdate it e")
  case True
  with assms show ?thesis by (auto simp: on_prop_def)
next
  case False
  then have "u \<longrightarrow> didUpdate it e" by blast
  with assms obtain t1 t2 where
    rem: "Promise_all (on_removed it r e)
       (filter (notIn (toArray (lookup ns e))) (toArray (lookup (read it) e))) = Inr t1" and
    add: "Promise_all (on_added st it r e)
       (filter (notIn (toArray (lookup (read it) e))) (toArray (lookup ns e))) = Inr t2" and
    t: "t = Seq [t1, t2]"
    by (rule on_prop_parts)
  show ?thesis
    using False by (auto simp: t Promise_all_set[OF rem] Promise_all_set[OF add] notIn_def)
qed

lemma onRefsUpdateItem_set:
  assumes "onRefsUpdateItem st it ns u = Inr t" and "refProps (proto it) = Some r"
  shows "ev \<in> set (calls t) \<longleftrightarrow>
           (\<exists>e \<in> set (props r). \<exists>t'. on_prop st it r ns u e = Inr t' \<and> ev \<in> set (calls t'))"
proof -
  from assms have "Promise_all (on_prop st it r ns u) (props r) = Inr t"
    by (simp add: onRefsUpdateItem_def)
  then show ?thesis by (rule Promise_all_set)
qed

lemma onRefsUpdateItem_each:
  assumes "onRefsUpdateItem st it ns u = Inr t" and "refProps (proto it) = Some r"
    and "e \<in> set (props r)"
  shows "\<exists>t'. on_prop st it r ns u e = Inr t'"
proof -
  from assms have "Promise_all (on_prop st it r ns u) (props r) = Inr t"
    by (simp add: onRefsUpdateItem_def)
  then show ?thesis using assms(3) by (rule Promise_all_each)
qed

lemma on_prop_each_removed:
  assumes "on_prop st it r ns u e = Inr t" and "u \<longrightarrow> didUpdate it e"
    and "i \<in> set (toArray (lookup (read it) e))" and "i \<notin> set (toArray (lookup ns e))"
  shows "\<exists>t'. on_removed it r e i = Inr t'"
proof -
  from assms(1,2) obtain t1 where
    "Promise_all (on_removed it r e)
       (filter (notIn (toArray (lookup ns e))) (toArray (lookup (read it) e))) = Inr t1"
    by (rule on_prop_parts)
  then show ?thesis
    by (rule Promise_all_each) (use assms(3,4) in \<open>simp add: notIn_def\<close>)
qed

lemma on_prop_each_added:
  assumes "on_prop st it r ns u e = Inr t" and "u \<longrightarrow> didUpdate it e"
    and "i \<in> set (toArray (lookup ns e))" and "i \<notin> set (toArray (lookup (read it) e))"
  shows "\<exists>t'. on_added st it r e i = Inr t'"
proof -
  from assms(1,2) obtain t2 where
    "Promise_all (on_added st it r e)
       (filter (notIn (toArray (lookup (read it) e))) (toArray (lookup ns e))) = Inr t2"
    by (rule on_prop_parts)
  then show ?thesis
    by (rule Promise_all_each) (use assms(3,4) in \<open>simp add: notIn_def\<close>)
qed

lemma RunAdd_iff:
  assumes run: "onRefsUpdateItem st it ns u = Inr t" and reg: "refProps (proto it) = Some r"
  shows "RunAdd e (m, i) a \<in> set (calls t) \<longleftrightarrow>
     e \<in> set (props r) \<and> (u \<longrightarrow> didUpdate it e)
     \<and> i \<in> set (toArray (lookup ns e)) \<and> i \<notin> set (toArray (lookup (read it) e))
     \<and> resolve_refModel it e = Inr m \<and> (\<exists>acts. AddActions r e = Some acts \<and> a \<in> set acts)"
  (is "?L \<longleftrightarrow> ?R")
proof
  assume ?L
  then obtain e' t' where e': "e' \<in> set (props r)" and t': "on_prop st it r ns u e' = Inr t'"
    and ev: "RunAdd e (m, i) a \<in> set (calls t')"
    using onRefsUpdateItem_set[OF run reg] by blast
  from ev on_prop_set[OF t'] show ?R
    using e' by (auto dest!: on_removed_calls on_added_calls split: if_splits)
next
  assume R: ?R
  then obtain t' where t': "on_prop st it r ns u e = Inr t'"
    using onRefsUpdateItem_each[OF run reg] by blast
  with R obtain t'' where t'': "on_added st it r e i = Inr t''"
    using on_prop_each_added by blast
  from on_added_calls[OF t''] R have "RunAdd e (m, i) a \<in> set (calls t'')" by auto
  with t'' R have "RunAdd e (m, i) a \<in> set (calls t')"
    by (subst on_prop_set[OF t']) auto
  with t' R show ?L
    by (subst onRefsUpdateItem_set[OF run reg]) auto
qed

lemma RunRemove_iff:
  assumes run: "onRefsUpdateItem st it ns u = Inr t" and reg: "refProps (proto it) = Some r"
  shows "RunRemove e (m, i) a \<in> set (calls t) \<longleftrightarrow>
     e \<in> set (props r) \<and> (u \<longrightarrow> didUpdate it e)
     \<and> i \<in> set (toArray (lookup (read it) e)) \<and> i \<notin> set (toArray (lookup ns e))
     \<and> resolve_refModel it e = Inr m \<and> (\<exists>acts. RemoveActions r e = Some acts \<and> a \<in> set acts)"
  (is "?L \<longleftrightarrow> ?R")
proof
  assume ?L
  then obtain e' t' where e': "e' \<in> set (props r)" and t': "on_prop st it r ns u e' = Inr t'"
    and ev: "RunRemove e (m, i) a \<in> set (calls t')"
    using onRefsUpdateItem_set[OF run reg] by blast
  from ev on_prop_set[OF t'] show ?R
    using e' by (auto dest!: on_removed_calls on_added_calls split: if_splits)
next
  assume R: ?R
  then obtain t' where t': "on_prop st it r ns u e = Inr t'"
    using onRefsUpdateItem_each[OF run reg] by blast
  with R obtain t'' where t'': "on_removed it r e i = Inr t''"
    using on_prop_each_removed by blast
  from on_removed_calls[OF t''] R have "RunRemove e (m, i) a \<in> set (calls t'')" by auto
  with t'' R have "RunRemove e (m, i) a \<in> set (calls t')"
    by (subst on_prop_set[OF t']) auto
  with t' R show ?L
    by (subst onRefsUpdateItem_set[OF run reg]) auto
qed


subsection \<open>Orders of steps\<close>

text \<open>A property of step lists that holds of the empty list and is kept by concatenation
  holds of every order of a sequence whose parts have it; likewise for interleaving and
  the parts of a \<^verbatim>\<open>Promise.all\<close>.\<close>

lemma traces_Seq_all:
  assumes "P []" and "\<And>x y. P x \<Longrightarrow> P y \<Longrightarrow> P (x @ y)"
    and "\<And>t x. t \<in> set ts \<Longrightarrow> x \<in> traces t \<Longrightarrow> P x"
    and "tr \<in> traces (Seq ts)"
  shows "P tr"
  using assms(3,4)
proof (induction ts arbitrary: tr)
  case Nil
  then show ?case using assms(1) by simp
next
  case (Cons t ts)
  from Cons.prems(2) obtain x y where
    x: "x \<in> traces t" and y: "y \<in> traces (Seq ts)" and tr: "tr = x @ y"
    by (auto simp: sequences_def)
  from x have "P x" by (rule Cons.prems(1)[rotated]) simp
  moreover from y have "P y" by (rule Cons.IH[rotated]) (rule Cons.prems(1), simp_all)
  ultimately show ?case unfolding tr by (rule assms(2))
qed

lemma traces_Par_all:
  assumes "P []" and "\<And>x y z. P x \<Longrightarrow> P y \<Longrightarrow> z \<in> shuffles x y \<Longrightarrow> P z"
    and "\<And>t x. t \<in> set ts \<Longrightarrow> x \<in> traces t \<Longrightarrow> P x"
    and "tr \<in> traces (Par ts)"
  shows "P tr"
  using assms(3,4)
proof (induction ts arbitrary: tr)
  case Nil
  then show ?case using assms(1) by simp
next
  case (Cons t ts)
  from Cons.prems(2) obtain x y where
    x: "x \<in> traces t" and y: "y \<in> traces (Par ts)" and tr: "tr \<in> shuffles x y"
    by (auto simp: interleavings_def)
  from x have "P x" by (rule Cons.prems(1)[rotated]) simp
  moreover from y have "P y" by (rule Cons.IH[rotated]) (rule Cons.prems(1), simp_all)
  ultimately show ?case using tr by (rule assms(2))
qed

text \<open>The steps of an order are the issues and the settlements of the calls of the task.\<close>

lemma traces_steps:
  "tr \<in> traces t \<Longrightarrow> set tr \<subseteq> Issue ` set (calls t) \<union> Settle ` set (calls t)"
proof (induction t arbitrary: tr)
  case (Call ev)
  then show ?case by simp
next
  case (Seq ts)
  let ?P = "\<lambda>x. set x \<subseteq> Issue ` set (calls (Seq ts)) \<union> Settle ` set (calls (Seq ts))"
  show ?case
  proof (rule traces_Seq_all[where P = ?P and ts = ts])
    show "?P []" by simp
    show "?P (x @ y)" if "?P x" "?P y" for x y using that by simp
    show "?P x" if "t \<in> set ts" "x \<in> traces t" for t x
    proof -
      have "set (calls t) \<subseteq> set (calls (Seq ts))" using that(1) by auto
      with Seq.IH[OF that] show ?thesis by (meson Un_mono image_mono subset_trans)
    qed
    show "tr \<in> traces (Seq ts)" by (rule Seq.prems)
  qed
next
  case (Par ts)
  let ?P = "\<lambda>x. set x \<subseteq> Issue ` set (calls (Par ts)) \<union> Settle ` set (calls (Par ts))"
  show ?case
  proof (rule traces_Par_all[where P = ?P and ts = ts])
    show "?P []" by simp
    show "?P z" if "?P x" "?P y" "z \<in> shuffles x y" for x y z
      using that by (simp add: set_shuffles)
    show "?P x" if "t \<in> set ts" "x \<in> traces t" for t x
    proof -
      have "set (calls t) \<subseteq> set (calls (Par ts))" using that(1) by auto
      with Par.IH[OF that] show ?thesis by (meson Un_mono image_mono subset_trans)
    qed
    show "tr \<in> traces (Par ts)" by (rule Par.prems)
  qed
qed

text \<open>An element of an interleaving comes from one of the two lists, after everything
  that precedes it there.\<close>

lemma shuffles_split:
  "z \<in> shuffles x y \<Longrightarrow> z = pre @ a # post \<Longrightarrow>
     (\<exists>px sx. x = px @ a # sx \<and> set px \<subseteq> set pre) \<or>
     (\<exists>py sy. y = py @ a # sy \<and> set py \<subseteq> set pre)"
proof (induction pre arbitrary: z x y)
  case Nil
  from Nil.prems(1) show ?case
  proof (rule shufflesE)
    assume "z = x" "y = []"
    with Nil.prems(2) have "x = [] @ a # post" by simp
    then show ?thesis by (metis empty_set empty_subsetI)
  next
    assume "z = y" "x = []"
    with Nil.prems(2) have "y = [] @ a # post" by simp
    then show ?thesis by (metis empty_set empty_subsetI)
  next
    fix x0 xs' z0 zs'
    assume "x = x0 # xs'" "z = z0 # zs'" "x0 = z0"
    with Nil.prems(2) have "x = [] @ a # xs'" by simp
    then show ?thesis by (metis empty_set empty_subsetI)
  next
    fix y0 ys' z0 zs'
    assume "y = y0 # ys'" "z = z0 # zs'" "y0 = z0"
    with Nil.prems(2) have "y = [] @ a # ys'" by simp
    then show ?thesis by (metis empty_set empty_subsetI)
  qed
next
  case (Cons p pre)
  from Cons.prems(1) show ?case
  proof (rule shufflesE)
    assume "z = x" "y = []"
    with Cons.prems(2) have "x = (p # pre) @ a # post" by simp
    then show ?thesis by blast
  next
    assume "z = y" "x = []"
    with Cons.prems(2) have "y = (p # pre) @ a # post" by simp
    then show ?thesis by blast
  next
    fix x0 xs' z0 zs'
    assume 3: "x = x0 # xs'" "z = z0 # zs'" "x0 = z0" "zs' \<in> shuffles xs' y"
    with Cons.prems(2) have zs': "zs' = pre @ a # post" and x0: "x0 = p" by simp_all
    from Cons.IH[OF 3(4) zs'] show ?thesis
    proof
      assume "\<exists>px sx. xs' = px @ a # sx \<and> set px \<subseteq> set pre"
      then obtain px sx where "xs' = px @ a # sx" "set px \<subseteq> set pre" by blast
      with 3(1) x0 have "x = (p # px) @ a # sx" "set (p # px) \<subseteq> set (p # pre)" by auto
      then show ?thesis by blast
    next
      assume "\<exists>py sy. y = py @ a # sy \<and> set py \<subseteq> set pre"
      then obtain py sy where "y = py @ a # sy" "set py \<subseteq> set (p # pre)" by auto
      then show ?thesis by blast
    qed
  next
    fix y0 ys' z0 zs'
    assume 4: "y = y0 # ys'" "z = z0 # zs'" "y0 = z0" "zs' \<in> shuffles x ys'"
    with Cons.prems(2) have zs': "zs' = pre @ a # post" and y0: "y0 = p" by simp_all
    from Cons.IH[OF 4(4) zs'] show ?thesis
    proof
      assume "\<exists>px sx. x = px @ a # sx \<and> set px \<subseteq> set pre"
      then obtain px sx where "x = px @ a # sx" "set px \<subseteq> set (p # pre)" by auto
      then show ?thesis by blast
    next
      assume "\<exists>py sy. ys' = py @ a # sy \<and> set py \<subseteq> set pre"
      then obtain py sy where "ys' = py @ a # sy" "set py \<subseteq> set pre" by blast
      with 4(1) y0 have "y = (p # py) @ a # sy" "set (p # py) \<subseteq> set (p # pre)" by auto
      then show ?thesis by blast
    qed
  qed
qed

subsection \<open>Saves settle before add-actions are issued\<close>

lemma saves_first_Nil: "saves_first st []"
  by (simp add: saves_first_def)

lemma saves_first_append:
  assumes "saves_first st xs" and "saves_first st ys"
  shows "saves_first st (xs @ ys)"
  unfolding saves_first_def
proof (intro allI impI)
  fix pre e target a post
  assume eq: "xs @ ys = pre @ Issue (RunAdd e target a) # post"
    and loc: "\<exists>c. st target = Some c \<and> isLocalOnly c"
  from eq obtain us where
    "xs = pre @ us \<and> us @ ys = Issue (RunAdd e target a) # post
     \<or> xs @ us = pre \<and> ys = us @ Issue (RunAdd e target a) # post"
    by (auto simp: append_eq_append_conv2)
  then consider
      (left) us' where "xs = pre @ Issue (RunAdd e target a) # us'"
    | (right) vs where "xs @ vs = pre" "ys = vs @ Issue (RunAdd e target a) # post"
    by (cases us) auto
  then show "Settle (Save target) \<in> set pre"
  proof cases
    case left
    with assms(1) loc show ?thesis unfolding saves_first_def by blast
  next
    case right
    with assms(2) loc have "Settle (Save target) \<in> set vs" unfolding saves_first_def by blast
    with right show ?thesis by auto
  qed
qed

lemma saves_first_shuffles:
  assumes "saves_first st xs" and "saves_first st ys" and "zs \<in> shuffles xs ys"
  shows "saves_first st zs"
  unfolding saves_first_def
proof (intro allI impI)
  fix pre e target a post
  assume eq: "zs = pre @ Issue (RunAdd e target a) # post"
    and loc: "\<exists>c. st target = Some c \<and> isLocalOnly c"
  from shuffles_split[OF assms(3) eq] show "Settle (Save target) \<in> set pre"
  proof
    assume "\<exists>px sx. xs = px @ Issue (RunAdd e target a) # sx \<and> set px \<subseteq> set pre"
    then obtain px sx where "xs = px @ Issue (RunAdd e target a) # sx" "set px \<subseteq> set pre"
      by blast
    with assms(1) loc show ?thesis unfolding saves_first_def by blast
  next
    assume "\<exists>py sy. ys = py @ Issue (RunAdd e target a) # sy \<and> set py \<subseteq> set pre"
    then obtain py sy where "ys = py @ Issue (RunAdd e target a) # sy" "set py \<subseteq> set pre"
      by blast
    with assms(2) loc show ?thesis unfolding saves_first_def by blast
  qed
qed

lemma saves_first_Seq:
  "(\<And>t x. t \<in> set ts \<Longrightarrow> x \<in> traces t \<Longrightarrow> saves_first st x) \<Longrightarrow> tr \<in> traces (Seq ts)
     \<Longrightarrow> saves_first st tr"
  by (rule traces_Seq_all[where P = "saves_first st" and ts = ts])
     (auto intro: saves_first_Nil saves_first_append)

lemma saves_first_Par:
  "(\<And>t x. t \<in> set ts \<Longrightarrow> x \<in> traces t \<Longrightarrow> saves_first st x) \<Longrightarrow> tr \<in> traces (Par ts)
     \<Longrightarrow> saves_first st tr"
  by (rule traces_Par_all[where P = "saves_first st" and ts = ts])
     (auto intro: saves_first_Nil saves_first_shuffles)

lemma saves_first_no_add:
  assumes "\<And>e target a. RunAdd e target a \<notin> set (calls t)" and "tr \<in> traces t"
  shows "saves_first st tr"
  unfolding saves_first_def
proof (intro allI impI)
  fix pre e target a post
  assume "tr = pre @ Issue (RunAdd e target a) # post"
  then have "Issue (RunAdd e target a) \<in> set tr" by simp
  with traces_steps[OF assms(2)] have "RunAdd e target a \<in> set (calls t)" by auto
  with assms(1) show "Settle (Save target) \<in> set pre" by blast
qed

lemma on_removed_saves_first:
  "on_removed it r e i = Inr t \<Longrightarrow> tr \<in> traces t \<Longrightarrow> saves_first st tr"
  by (rule saves_first_no_add[where t = t]) (auto dest!: on_removed_calls)

lemma on_added_saves_first:
  assumes "on_added st it r e i = Inr t" and tr: "tr \<in> traces t"
  shows "saves_first st tr"
proof -
  from on_added_Inr[OF assms(1)] obtain m acts where
    t: "t = Seq ((if \<exists>c. st (m, i) = Some c \<and> isLocalOnly c then [Call (Save (m, i))] else [])
                 @ [Par (map (\<lambda>a. Call (RunAdd e (m, i) a)) acts)])"
    by blast
  let ?adds = "Par (map (\<lambda>a. Call (RunAdd e (m, i) a)) acts)"
  have target: "target = (m, i)" if "Issue (RunAdd e' target a) \<in> set tr" for e' target a
  proof -
    from that traces_steps[OF tr] have "RunAdd e' target a \<in> set (calls t)" by auto
    then show ?thesis
      unfolding t using calls_actions[of "RunAdd e (m, i)" acts] by (auto split: if_splits)
  qed
  show ?thesis
  proof (cases "\<exists>c. st (m, i) = Some c \<and> isLocalOnly c")
    case False
    show ?thesis
      unfolding saves_first_def
    proof (intro allI impI)
      fix pre e' target a post
      assume "tr = pre @ Issue (RunAdd e' target a) # post"
        and loc: "\<exists>c. st target = Some c \<and> isLocalOnly c"
      then have "Issue (RunAdd e' target a) \<in> set tr" by simp
      then have "target = (m, i)" by (rule target)
      with loc False show "Settle (Save target) \<in> set pre" by blast
    qed
  next
    case True
    with t tr obtain y where y: "tr = [Issue (Save (m, i)), Settle (Save (m, i))] @ y"
      by (auto simp: sequences_def)
    show ?thesis
      unfolding saves_first_def
    proof (intro allI impI)
      fix pre e' target a post
      assume eq: "tr = pre @ Issue (RunAdd e' target a) # post"
      then have "Issue (RunAdd e' target a) \<in> set tr" by simp
      then have tg: "target = (m, i)" by (rule target)
      from eq y obtain pre' where "pre = Issue (Save (m, i)) # Settle (Save (m, i)) # pre'"
        by (cases pre; cases "tl pre") auto
      with tg show "Settle (Save target) \<in> set pre" by simp
    qed
  qed
qed

lemma on_prop_saves_first:
  assumes "on_prop st it r ns u e = Inr t" and tr: "tr \<in> traces t"
  shows "saves_first st tr"
proof (cases "u \<and> \<not> didUpdate it e")
  case True
  with assms show ?thesis by (auto simp: on_prop_def saves_first_Nil)
next
  case False
  then have "u \<longrightarrow> didUpdate it e" by blast
  with assms(1) obtain t1 t2 where
    rem: "Promise_all (on_removed it r e)
       (filter (notIn (toArray (lookup ns e))) (toArray (lookup (read it) e))) = Inr t1" and
    add: "Promise_all (on_added st it r e)
       (filter (notIn (toArray (lookup (read it) e))) (toArray (lookup ns e))) = Inr t2" and
    t: "t = Seq [t1, t2]"
    by (rule on_prop_parts)
  from Promise_all_bodies[OF rem] obtain ts1 where ts1: "t1 = Par ts1"
    "\<forall>t' \<in> set ts1. \<exists>x. on_removed it r e x = Inr t'"
    by blast
  from Promise_all_bodies[OF add] obtain ts2 where ts2: "t2 = Par ts2"
    "\<forall>t' \<in> set ts2. \<exists>x. on_added st it r e x = Inr t'"
    by blast
  have 1: "saves_first st x" if "x \<in> traces t1" for x
    using that unfolding ts1(1)
    by (rule saves_first_Par[rotated]) (use ts1(2) on_removed_saves_first in blast)
  have 2: "saves_first st x" if "x \<in> traces t2" for x
    using that unfolding ts2(1)
    by (rule saves_first_Par[rotated]) (use ts2(2) on_added_saves_first in blast)
  from tr show ?thesis
    unfolding t by (rule saves_first_Seq[rotated]) (use 1 2 in auto)
qed

lemma onRefsUpdateItem_saves_first:
  assumes "onRefsUpdateItem st it ns u = Inr t" and tr: "tr \<in> traces t"
  shows "saves_first st tr"
proof (cases "refProps (proto it)")
  case None
  with assms show ?thesis by (auto simp: onRefsUpdateItem_def saves_first_Nil)
next
  case (Some r)
  with assms have "Promise_all (on_prop st it r ns u) (props r) = Inr t"
    by (simp add: onRefsUpdateItem_def)
  from Promise_all_bodies[OF this] obtain ts where ts: "t = Par ts"
    "\<forall>t' \<in> set ts. \<exists>x. on_prop st it r ns u x = Inr t'"
    by blast
  from tr show ?thesis
    unfolding ts(1)
    by (rule saves_first_Par[rotated]) (use ts(2) on_prop_saves_first in blast)
qed

text \<open>Every task has an order of steps.\<close>

lemma traces_nonempty: "traces t \<noteq> {}"
proof (induction t)
  case (Call ev)
  then show ?case by simp
next
  case (Seq ts)
  then show ?case
    by (induction ts) (auto simp: sequences_def)
next
  case (Par ts)
  then show ?case
  proof (induction ts)
    case Nil
    then show ?case by simp
  next
    case (Cons t ts)
    then obtain x y where "x \<in> traces t" "y \<in> traces (Par ts)" by fastforce
    moreover have "splice x y \<in> shuffles x y" by simp
    ultimately show ?case by (auto simp: interleavings_def)
  qed
qed

subsection \<open>Runs that return\<close>

text \<open>A well-configured item makes every step return.\<close>

lemma Promise_all_total:
  assumes "\<And>x. x \<in> set xs \<Longrightarrow> \<exists>t. body x = Inr t"
  shows "\<exists>t. Promise_all body xs = Inr t"
proof -
  have "body x = Inr (projr (body x))" if "x \<in> set xs" for x
    using assms[OF that] by auto
  then have "map body xs = map Inr (map (\<lambda>x. projr (body x)) xs)"
    by simp
  then show ?thesis using Promise_all_Inr by blast
qed

lemma run_total: "runnable a \<Longrightarrow> \<exists>c. run a s t = Inr c"
  by (cases a) auto

lemma run_actions_total:
  assumes "list_all runnable acts"
  shows "\<exists>t. run_actions ev it target (Some acts) = Inr t"
proof -
  have "\<exists>t. (case run a (item_id it) target of Inl err \<Rightarrow> Inl err
             | Inr c \<Rightarrow> Inr (Call (ev a))) = Inr t"
    if "a \<in> set acts" for a
    using that assms run_total[of a "item_id it" target] by (auto simp: list_all_iff)
  then show ?thesis
    unfolding run_actions_def by (simp add: Promise_all_total)
qed

lemma well_configured_prop:
  assumes "well_configured it r" and "e \<in> set (props r)"
  shows "\<exists>m as rs. resolve_refModel it e = Inr m
           \<and> AddActions r e = Some as \<and> list_all runnable as
           \<and> RemoveActions r e = Some rs \<and> list_all runnable rs"
proof -
  from assms have
    "(case resolve_refModel it e of Inl err \<Rightarrow> False | Inr m \<Rightarrow> True)"
    "(case AddActions r e of None \<Rightarrow> False | Some acts \<Rightarrow> list_all runnable acts)"
    "(case RemoveActions r e of None \<Rightarrow> False | Some acts \<Rightarrow> list_all runnable acts)"
    by (simp_all add: well_configured_def list_all_iff)
  then show ?thesis
    by (cases "resolve_refModel it e"; cases "AddActions r e"; cases "RemoveActions r e") simp_all
qed

lemma on_prop_total:
  assumes "well_configured it r" and "e \<in> set (props r)"
  shows "\<exists>t. on_prop st it r ns u e = Inr t"
proof -
  from well_configured_prop[OF assms] obtain m as rs where
    m: "resolve_refModel it e = Inr m" and
    as: "AddActions r e = Some as" "list_all runnable as" and
    rs: "RemoveActions r e = Some rs" "list_all runnable rs"
    by blast
  have rem: "\<exists>t. on_removed it r e i = Inr t" for i
    using run_actions_total[OF rs(2)] by (simp add: on_removed_def m rs(1))
  have add: "\<exists>t. on_added st it r e i = Inr t" for i
    using run_actions_total[OF as(2), of "RunAdd e (m, i)" it "(m, i)"]
    by (auto simp: on_added_def m as(1) Let_def)
  obtain t1 where t1: "Promise_all (on_removed it r e)
      (filter (notIn (toArray (lookup ns e))) (toArray (lookup (read it) e))) = Inr t1"
    using Promise_all_total[of _ "on_removed it r e"] rem by blast
  obtain t2 where t2: "Promise_all (on_added st it r e)
      (filter (notIn (toArray (lookup (read it) e))) (toArray (lookup ns e))) = Inr t2"
    using Promise_all_total[of _ "on_added st it r e"] add by blast
  show ?thesis
    by (simp add: on_prop_def Let_def t1 t2)
qed

lemma onRefsUpdateItem_total:
  assumes "refProps (proto it) = Some r" and "well_configured it r"
  shows "\<exists>t. onRefsUpdateItem st it ns u = Inr t"
  using assms by (simp add: onRefsUpdateItem_def Promise_all_total on_prop_total)

subsection \<open>Concrete runs\<close>

lemmas engine_defs = onRefsUpdateItem_def Promise_all_def on_prop_def on_removed_def on_added_def
  run_actions_def resolve_refModel_def lookup_def notIn_def

lemma item_a1_registry: "refProps (proto item_a1) = Some registry_bIds"
  by (simp add: item_a1_def)

lemma item_a1_well_configured: "well_configured item_a1 registry_bIds"
  by (simp add: well_configured_def resolve_refModel_def item_a1_def registry_bIds_def)

lemma item_a2_registry: "refProps (proto item_a2) = Some registry_bId"
  by (simp add: item_a2_def class_bId_def)


lemma item_a1_update:
  "onRefsUpdateItem store_b3 item_a1 newState_a1 True =
     Inr (Par [Seq [Par [Par [Call (RunRemove ''bIds'' (''B'', ''b1'') (RemoveIDAction ''aIds''))]],
                    Par [Seq [Call (Save (''B'', ''b3'')),
                              Par [Call (RunAdd ''bIds'' (''B'', ''b3'') (AppendIDAction ''aIds''))]]]]])"
  by (simp add: engine_defs item_a1_def newState_a1_def store_b3_def registry_bIds_def)

lemma item_a1_two_added:
  "onRefsUpdateItem store_b3 item_a1 newState_two_added True =
     Inr (Par [Seq [Par [],
                    Par [Seq [Call (Save (''B'', ''b3'')),
                              Par [Call (RunAdd ''bIds'' (''B'', ''b3'') (AppendIDAction ''aIds''))]],
                         Seq [Par [Call (RunAdd ''bIds'' (''B'', ''b4'') (AppendIDAction ''aIds''))]]]]])"
  by (simp add: engine_defs item_a1_def newState_two_added_def store_b3_def registry_bIds_def)

lemma item_a1_fresh_add:
  "onRefsAddItem store_b3 (item_a1\<lparr>read := Map.empty\<rparr>) newState_a1 =
     Inr (Par [Seq [Par [],
                    Par [Seq [Par [Call (RunAdd ''bIds'' (''B'', ''b2'') (AppendIDAction ''aIds''))]],
                         Seq [Call (Save (''B'', ''b3'')),
                              Par [Call (RunAdd ''bIds'' (''B'', ''b3'') (AppendIDAction ''aIds''))]]]]])"
  by (simp add: onRefsAddItem_def engine_defs item_a1_def newState_a1_def store_b3_def
      registry_bIds_def)

lemma item_a2_update:
  "onRefsUpdateItem Map.empty item_a2 newState_a2 True =
     Inr (Par [Seq [Par [Par [Call (RunRemove ''bId'' (''B'', ''b1'') (UnsetIDAction ''aId''))]],
                    Par [Seq [Par [Call (RunAdd ''bId'' (''B'', ''b2'') (SetIDAction ''aId''))]]]]])"
  by (simp add: engine_defs item_a2_def newState_a2_def class_bId_def registry_bId_def)


subsection \<open>The claims about the engine\<close>

text \<open>\<^verbatim>\<open>toArray\<close> against the normalization of the spec: they differ at the empty string
  only, which \<^verbatim>\<open>toArray\<close> takes for an absent value.\<close>

lemma toArray_normalized:
  "toArray v = (if v = Str [] then [] else normalized_as_specified v)"
  by (cases v) simp_all


text \<open>C1, as the code has it. \<^verbatim>\<open>toArray\<close> normalizes a value as the spec says, except that
  the empty string, like an absent or null value, gives the empty sequence. For a tracked
  property \<^verbatim>\<open>e\<close>, the ids that \<^verbatim>\<open>onRefsUpdateItem\<close> filters as added and as removed are the
  set differences new minus old and old minus new of the normalized values; in a run that
  returns, an add-action of \<^verbatim>\<open>e\<close> is run for an id exactly when the property is processed
  and the id is in new minus old, a remove-action exactly when it is in old minus new,
  and an id present in both triggers neither.\<close>

theorem onRefsUpdateItem_set_differences:
  assumes run: "onRefsUpdateItem st it ns u = Inr t" and reg: "refProps (proto it) = Some r"
  shows "toArray v = (if v = Str [] then [] else normalized_as_specified v)
       \<and> set (filter (notIn (toArray (lookup (read it) e))) (toArray (lookup ns e)))
           = set (toArray (lookup ns e)) - set (toArray (lookup (read it) e))
       \<and> set (filter (notIn (toArray (lookup ns e))) (toArray (lookup (read it) e)))
           = set (toArray (lookup (read it) e)) - set (toArray (lookup ns e))
       \<and> (RunAdd e (m, i) a \<in> set (calls t) \<longleftrightarrow>
            e \<in> set (props r) \<and> (u \<longrightarrow> didUpdate it e)
            \<and> i \<in> set (toArray (lookup ns e)) - set (toArray (lookup (read it) e))
            \<and> resolve_refModel it e = Inr m
            \<and> (\<exists>acts. AddActions r e = Some acts \<and> a \<in> set acts))
       \<and> (RunRemove e (m, i) a \<in> set (calls t) \<longleftrightarrow>
            e \<in> set (props r) \<and> (u \<longrightarrow> didUpdate it e)
            \<and> i \<in> set (toArray (lookup (read it) e)) - set (toArray (lookup ns e))
            \<and> resolve_refModel it e = Inr m
            \<and> (\<exists>acts. RemoveActions r e = Some acts \<and> a \<in> set acts))
       \<and> (i \<in> set (toArray (lookup ns e)) \<inter> set (toArray (lookup (read it) e)) \<longrightarrow>
            RunAdd e (m, i) a \<notin> set (calls t) \<and> RunRemove e (m, i) a \<notin> set (calls t))"
proof -
  have diffs:
    "set (filter (notIn (toArray (lookup (read it) e))) (toArray (lookup ns e)))
       = set (toArray (lookup ns e)) - set (toArray (lookup (read it) e))"
    "set (filter (notIn (toArray (lookup ns e))) (toArray (lookup (read it) e)))
       = set (toArray (lookup (read it) e)) - set (toArray (lookup ns e))"
    by (auto simp: notIn_def)
  note add = RunAdd_iff[OF run reg, of e m i a]
  note rem = RunRemove_iff[OF run reg, of e m i a]
  from add rem have both:
    "i \<in> set (toArray (lookup ns e)) \<inter> set (toArray (lookup (read it) e)) \<longrightarrow>
       RunAdd e (m, i) a \<notin> set (calls t) \<and> RunRemove e (m, i) a \<notin> set (calls t)"
    by blast
  from add have add': "RunAdd e (m, i) a \<in> set (calls t) \<longleftrightarrow>
            e \<in> set (props r) \<and> (u \<longrightarrow> didUpdate it e)
            \<and> i \<in> set (toArray (lookup ns e)) - set (toArray (lookup (read it) e))
            \<and> resolve_refModel it e = Inr m
            \<and> (\<exists>acts. AddActions r e = Some acts \<and> a \<in> set acts)"
    by blast
  from rem have rem': "RunRemove e (m, i) a \<in> set (calls t) \<longleftrightarrow>
            e \<in> set (props r) \<and> (u \<longrightarrow> didUpdate it e)
            \<and> i \<in> set (toArray (lookup (read it) e)) - set (toArray (lookup ns e))
            \<and> resolve_refModel it e = Inr m
            \<and> (\<exists>acts. RemoveActions r e = Some acts \<and> a \<in> set acts)"
    by blast
  from toArray_normalized[of v] diffs add' rem' both show ?thesis
    by (intro conjI)
qed

theorem onRefsUpdateItem_set_differences_witness:
  "onRefsUpdateItem Map.empty item_a2 newState_a2 True =
     Inr (Par [Seq [Par [Par [Call (RunRemove ''bId'' (''B'', ''b1'') (UnsetIDAction ''aId''))]],
                    Par [Seq [Par [Call (RunAdd ''bId'' (''B'', ''b2'') (SetIDAction ''aId''))]]]]])
   \<and> refProps (proto item_a2) = Some registry_bId
   \<and> toArray (Str ''b2'') = [''b2'']
   \<and> toArray (lookup newState_a2 ''bId'') = [''b2'']
   \<and> toArray (lookup (read item_a2) ''bId'') = [''b1'']
   \<and> set (filter (notIn (toArray (lookup (read item_a2) ''bId'')))
            (toArray (lookup newState_a2 ''bId''))) = {''b2''}
   \<and> set (filter (notIn (toArray (lookup newState_a2 ''bId'')))
            (toArray (lookup (read item_a2) ''bId''))) = {''b1''}
   \<and> RunAdd ''bId'' (''B'', ''b2'') (SetIDAction ''aId'')
       \<in> set (calls (Par [Seq [Par [Par [Call (RunRemove ''bId'' (''B'', ''b1'') (UnsetIDAction ''aId''))]],
                    Par [Seq [Par [Call (RunAdd ''bId'' (''B'', ''b2'') (SetIDAction ''aId''))]]]]]))"
  using onRefsUpdateItem_set_differences [OF item_a2_update item_a2_registry,
          of "Str ''b2''" "''bId''" "''B''" "''b2''" "SetIDAction ''aId''"]
        item_a2_update item_a2_registry
  by (simp add: lookup_def item_a2_def newState_a2_def)

text \<open>C1, as stated, fails at a scalar: the empty string does not become a single-element
  sequence, so an update that sets \<^verbatim>\<open>bId\<close> from \<^verbatim>\<open>b1\<close> to the empty string runs the
  remove-action for \<^verbatim>\<open>b1\<close> and no add-action.\<close>

theorem onRefsUpdateItem_empty_string_is_no_id:
  "toArray (Str []) = []
   \<and> normalized_as_specified (Str []) = [[]]
   \<and> onRefsUpdateItem Map.empty item_a2 newState_empty_string True =
       Inr (Par [Seq [Par [Par [Call (RunRemove ''bId'' (''B'', ''b1'') (UnsetIDAction ''aId''))]],
                      Par []]])"
  by (simp add: engine_defs item_a2_def newState_empty_string_def class_bId_def registry_bId_def)

text \<open>C3, as the code has it. \<^verbatim>\<open>onRefsAddItem\<close> is \<^verbatim>\<open>onRefsUpdateItem\<close> without the dirty-set
  filter; the prior state is still the persisted state read through the transaction. For
  a well-configured item whose persisted value of every tracked property is empty, the
  run returns, every id in the new value of every tracked property fires every
  registered add-action, and no remove-action fires.\<close>

theorem onRefsAddItem_on_empty_prior_state:
  assumes reg: "refProps (proto it) = Some r" and wc: "well_configured it r"
    and empty: "\<forall>e \<in> set (props r). toArray (lookup (read it) e) = []"
  shows "onRefsAddItem st it ns = onRefsUpdateItem st it ns False
       \<and> (\<exists>t. onRefsAddItem st it ns = Inr t
            \<and> (\<forall>e target a. RunRemove e target a \<notin> set (calls t))
            \<and> (\<forall>e \<in> set (props r). \<forall>i \<in> set (toArray (lookup ns e)).
                 \<forall>acts. AddActions r e = Some acts \<longrightarrow>
                   (\<forall>a \<in> set acts. \<exists>m. RunAdd e (m, i) a \<in> set (calls t))))"
proof -
  from onRefsUpdateItem_total[OF reg wc] obtain t where
    run: "onRefsUpdateItem st it ns False = Inr t"
    by blast
  have no_remove: "RunRemove e target a \<notin> set (calls t)" for e target a
    using RunRemove_iff[OF run reg, of e "fst target" "snd target" a] empty by auto
  have adds: "\<exists>m. RunAdd e (m, i) a \<in> set (calls t)"
    if "e \<in> set (props r)" "i \<in> set (toArray (lookup ns e))" "AddActions r e = Some acts"
       "a \<in> set acts" for e i acts a
  proof -
    from well_configured_prop[OF wc that(1)] obtain m where "resolve_refModel it e = Inr m"
      by blast
    with that empty have "RunAdd e (m, i) a \<in> set (calls t)"
      by (subst RunAdd_iff[OF run reg]) auto
    then show ?thesis ..
  qed
  from run no_remove adds show ?thesis
    unfolding onRefsAddItem_def by blast
qed

theorem onRefsAddItem_on_empty_prior_state_witness:
  "refProps (proto (item_a1\<lparr>read := Map.empty\<rparr>)) = Some registry_bIds
   \<and> well_configured (item_a1\<lparr>read := Map.empty\<rparr>) registry_bIds
   \<and> props registry_bIds = [''bIds'']
   \<and> toArray (lookup (read (item_a1\<lparr>read := Map.empty\<rparr>)) ''bIds'') = []
   \<and> onRefsAddItem store_b3 (item_a1\<lparr>read := Map.empty\<rparr>) newState_a1 =
       onRefsUpdateItem store_b3 (item_a1\<lparr>read := Map.empty\<rparr>) newState_a1 False
   \<and> onRefsAddItem store_b3 (item_a1\<lparr>read := Map.empty\<rparr>) newState_a1 =
       Inr (Par [Seq [Par [],
                      Par [Seq [Par [Call (RunAdd ''bIds'' (''B'', ''b2'') (AppendIDAction ''aIds''))]],
                           Seq [Call (Save (''B'', ''b3'')),
                                Par [Call (RunAdd ''bIds'' (''B'', ''b3'') (AppendIDAction ''aIds''))]]]]])
   \<and> toArray (lookup newState_a2 ''bId'') = [''b2'']
   \<and> onRefsAddItem Map.empty (item_a2\<lparr>read := Map.empty\<rparr>) newState_a2 =
       Inr (Par [Seq [Par [],
                      Par [Seq [Par [Call (RunAdd ''bId'' (''B'', ''b2'') (SetIDAction ''aId''))]]]]])"
proof -
  let ?it = "item_a1\<lparr>read := Map.empty\<rparr>"
  have reg: "refProps (proto ?it) = Some registry_bIds"
    by (simp add: item_a1_def)
  have wc: "well_configured ?it registry_bIds"
    by (simp add: well_configured_def resolve_refModel_def item_a1_def registry_bIds_def)
  have empty: "\<forall>e \<in> set (props registry_bIds). toArray (lookup (read ?it) e) = []"
    by (simp add: registry_bIds_def lookup_def)
  from onRefsAddItem_on_empty_prior_state [OF reg wc empty, of store_b3 newState_a1]
  have "onRefsAddItem store_b3 ?it newState_a1 = onRefsUpdateItem store_b3 ?it newState_a1 False"
    by blast
  moreover have "toArray (lookup newState_a2 ''bId'') = [''b2'']"
    by (simp add: newState_a2_def lookup_def)
  moreover have "onRefsAddItem Map.empty (item_a2\<lparr>read := Map.empty\<rparr>) newState_a2 =
       Inr (Par [Seq [Par [],
                      Par [Seq [Par [Call (RunAdd ''bId'' (''B'', ''b2'') (SetIDAction ''aId''))]]]]])"
    by (simp add: onRefsAddItem_def engine_defs item_a2_def newState_a2_def class_bId_def
        registry_bId_def)
  ultimately show ?thesis
    using reg wc item_a1_fresh_add by (simp add: registry_bIds_def lookup_def)
qed

text \<open>C3, as stated, fails: adding an item whose persisted \<^verbatim>\<open>bIds\<close> is \<^verbatim>\<open>[b1, b2]\<close> with the new
  value \<^verbatim>\<open>[b2, b3]\<close> runs a remove-action for \<^verbatim>\<open>b1\<close> and no add-action for \<^verbatim>\<open>b2\<close>.\<close>

theorem onRefsAddItem_reads_persisted_state:
  "onRefsAddItem store_b3 item_a1 newState_a1 =
     Inr (Par [Seq [Par [Par [Call (RunRemove ''bIds'' (''B'', ''b1'') (RemoveIDAction ''aIds''))]],
                    Par [Seq [Call (Save (''B'', ''b3'')),
                              Par [Call (RunAdd ''bIds'' (''B'', ''b3'') (AppendIDAction ''aIds''))]]]]])"
  by (simp add: onRefsAddItem_def engine_defs item_a1_def newState_a1_def store_b3_def
      registry_bIds_def)



text \<open>C8. In every order of steps that a returning run can take, an add-action issued
  against a target that the item store holds as a local-only instance comes after the
  save of that instance has settled.\<close>

theorem local_only_target_saved_before_add_actions:
  assumes "onRefsUpdateItem st it ns u = Inr t" and "tr \<in> traces t"
    and "tr = pre @ Issue (RunAdd e target a) # post"
    and "st target = Some c" and "isLocalOnly c"
  shows "Settle (Save target) \<in> set pre"
  using onRefsUpdateItem_saves_first[OF assms(1,2)] assms(3,4,5)
  unfolding saves_first_def by blast

theorem local_only_target_saved_before_add_actions_witness:
  "onRefsUpdateItem store_b3 item_a1 newState_two_added True =
     Inr (Par [Seq [Par [],
                    Par [Seq [Call (Save (''B'', ''b3'')),
                              Par [Call (RunAdd ''bIds'' (''B'', ''b3'') (AppendIDAction ''aIds''))]],
                         Seq [Par [Call (RunAdd ''bIds'' (''B'', ''b4'') (AppendIDAction ''aIds''))]]]]])
   \<and> [Issue (Save (''B'', ''b3'')),
       Issue (RunAdd ''bIds'' (''B'', ''b4'') (AppendIDAction ''aIds'')),
       Settle (Save (''B'', ''b3'')),
       Issue (RunAdd ''bIds'' (''B'', ''b3'') (AppendIDAction ''aIds'')),
       Settle (RunAdd ''bIds'' (''B'', ''b4'') (AppendIDAction ''aIds'')),
       Settle (RunAdd ''bIds'' (''B'', ''b3'') (AppendIDAction ''aIds''))]
      \<in> traces (Par [Seq [Par [],
                    Par [Seq [Call (Save (''B'', ''b3'')),
                              Par [Call (RunAdd ''bIds'' (''B'', ''b3'') (AppendIDAction ''aIds''))]],
                         Seq [Par [Call (RunAdd ''bIds'' (''B'', ''b4'') (AppendIDAction ''aIds''))]]]]])
   \<and> store_b3 (''B'', ''b3'') = Some (Cached True)
   \<and> isLocalOnly (Cached True)
   \<and> Settle (Save (''B'', ''b3''))
       \<in> set [Issue (Save (''B'', ''b3'')),
              Issue (RunAdd ''bIds'' (''B'', ''b4'') (AppendIDAction ''aIds'')),
              Settle (Save (''B'', ''b3''))]"
proof -
  let ?t = "Par [Seq [Par [],
                    Par [Seq [Call (Save (''B'', ''b3'')),
                              Par [Call (RunAdd ''bIds'' (''B'', ''b3'') (AppendIDAction ''aIds''))]],
                         Seq [Par [Call (RunAdd ''bIds'' (''B'', ''b4'') (AppendIDAction ''aIds''))]]]]]"
  let ?pre = "[Issue (Save (''B'', ''b3'')),
              Issue (RunAdd ''bIds'' (''B'', ''b4'') (AppendIDAction ''aIds'')),
              Settle (Save (''B'', ''b3''))]"
  let ?post = "[Settle (RunAdd ''bIds'' (''B'', ''b4'') (AppendIDAction ''aIds'')),
               Settle (RunAdd ''bIds'' (''B'', ''b3'') (AppendIDAction ''aIds''))]"
  let ?tr = "?pre @ Issue (RunAdd ''bIds'' (''B'', ''b3'') (AppendIDAction ''aIds'')) # ?post"
  have run: "onRefsUpdateItem store_b3 item_a1 newState_two_added True = Inr ?t"
    by (rule item_a1_two_added)
  have tr: "?tr \<in> traces ?t"
    by (simp add: sequences_def interleavings_def)
  have st: "store_b3 (''B'', ''b3'') = Some (Cached True)"
    by (simp add: store_b3_def)
  have loc: "isLocalOnly (Cached True)"
    by simp
  from local_only_target_saved_before_add_actions [OF run tr refl st loc] run tr st loc
  show ?thesis by simp
qed

section \<open>Properties of the association builders\<close>

subsection \<open>The declaration and its reciprocal\<close>

lemma connect_noRecurse:
  "connect w model1 prop1 model2 prop2 deleteOnRemove True =
     connect_declare w model1 prop1 model2 prop2 deleteOnRemove"
  by (subst connect.simps) (simp split: prod.splits option.splits)

lemma trackRefs_error: "trackRefs cls ps adds rems = Inl err \<Longrightarrow> err = TypeError"
  by (cases "refProps cls") (auto simp: trackRefs_first trackRefs_again split: if_splits)

lemma isArray_reciprocal_error: "isArray_reciprocal w m p = Inl err \<Longrightarrow> err = TypeError"
  by (auto simp: isArray_reciprocal_def split: option.splits if_splits)

lemma set_refModel_error: "set_refModel meta m = Inl err \<Longrightarrow> err = TypeError"
  by (auto simp: set_refModel_def split: option.splits if_splits)

lemma isArray_reciprocal_True:
  "isArray_reciprocal w model2 prop2 = Inr True \<longleftrightarrow>
     (\<exists>p2 meta2. prop2 = Some p2 \<and> p2 \<noteq> [] \<and> Meta (w model2) p2 = Some meta2
        \<and> mtype meta2 = ''array'')"
  by (auto simp: isArray_reciprocal_def truthy_prop_def split: option.splits)

lemma connect_declare_InvalidParameters:
  "fst (connect_declare w model1 prop1 model2 prop2 deleteOnRemove) = Some InvalidParameters
     \<longleftrightarrow> Meta (w model1) prop1 \<noteq> None \<and> isArray_reciprocal w model2 prop2 = Inr True \<and> deleteOnRemove"
  by (auto simp: connect_declare_def Let_def split: option.splits sum.splits
           dest: trackRefs_error isArray_reciprocal_error set_refModel_error)

lemma connect_declare_unchanged:
  "fst (connect_declare w model1 prop1 model2 prop2 deleteOnRemove) = Some InvalidParameters
     \<Longrightarrow> snd (connect_declare w model1 prop1 model2 prop2 deleteOnRemove) = w"
  by (auto simp: connect_declare_def Let_def split: option.splits sum.splits if_splits
           dest: trackRefs_error isArray_reciprocal_error set_refModel_error)

lemma connect_cases:
  "connect w model1 prop1 model2 prop2 deleteOnRemove noRecurse =
     (let r = connect_declare w model1 prop1 model2 prop2 deleteOnRemove in
      if fst r \<noteq> None \<or> noRecurse \<or> \<not> truthy_prop prop2 then r
      else connect_declare (snd r) model2 (the prop2) model1 (Some prop1) False)"
  by (subst connect.simps) (auto simp: connect_noRecurse Let_def truthy_prop_def split: prod.splits option.splits)

lemma connect_InvalidParameters_iff:
  "fst (connect w model1 prop1 model2 prop2 deleteOnRemove noRecurse) = Some InvalidParameters
     \<longleftrightarrow> Meta (w model1) prop1 \<noteq> None \<and> isArray_reciprocal w model2 prop2 = Inr True \<and> deleteOnRemove"
  using connect_declare_InvalidParameters[of w model1 prop1 model2 prop2 deleteOnRemove]
    connect_declare_InvalidParameters[of "snd (connect_declare w model1 prop1 model2 prop2 deleteOnRemove)" model2 "the prop2" model1 "Some prop1" False]
  by (auto simp: connect_cases Let_def split: if_splits)

lemma connect_InvalidParameters_unchanged:
  "fst (connect w model1 prop1 model2 prop2 deleteOnRemove noRecurse) = Some InvalidParameters
     \<Longrightarrow> snd (connect w model1 prop1 model2 prop2 deleteOnRemove noRecurse) = w"
  using connect_declare_unchanged[of w model1 prop1 model2 prop2 deleteOnRemove]
    connect_declare_InvalidParameters[of "snd (connect_declare w model1 prop1 model2 prop2 deleteOnRemove)" model2 "the prop2" model1 "Some prop1" False]
  by (auto simp: connect_cases Let_def split: if_splits)

text \<open>The lists that \<^verbatim>\<open>connect\<close> passes to \<^verbatim>\<open>trackRefs\<close>, case by case.\<close>

lemma connect_action_lists:
  "p2 \<noteq> [] \<Longrightarrow> connect_addActions (Some p2) True = [AppendIDAction p2]"
  "p2 \<noteq> [] \<Longrightarrow> connect_addActions (Some p2) False = [SetIDAction p2]"
  "\<not> truthy_prop prop2 \<Longrightarrow> connect_addActions prop2 False = []"
  "connect_removeActions prop2 True = [DeleteItemAction]"
  "p2 \<noteq> [] \<Longrightarrow> connect_removeActions (Some p2) False = [UnsetIDAction p2]"
  "\<not> truthy_prop prop2 \<Longrightarrow> connect_removeActions prop2 False = []"
  by (simp_all add: connect_addActions_def connect_removeActions_def filter_Boolean_def
      truthy_prop_def)

text \<open>On a class whose registry already tracks the property, a declaration that throws
  nothing appends both lists to the registered ones.\<close>

lemma connect_declare_appends:
  assumes "refProps (Item (w model1)) = Some prev"
    and "AddActions prev prop1 = Some as" and "RemoveActions prev prop1 = Some rs"
    and "isArray_reciprocal w model2 prop2 = Inr isArray2"
    and "fst (connect_declare w model1 prop1 model2 prop2 deleteOnRemove) = None"
  shows "addActions_of (Item (snd (connect_declare w model1 prop1 model2 prop2 deleteOnRemove) model1)) prop1
           = Some (as @ connect_addActions prop2 isArray2)
       \<and> removeActions_of (Item (snd (connect_declare w model1 prop1 model2 prop2 deleteOnRemove) model1)) prop1
           = Some (rs @ connect_removeActions prop2 deleteOnRemove)"
  using assms
  by (auto simp: connect_declare_def trackRefs_again dom_def Let_def addActions_of_def
      removeActions_of_def split: option.splits sum.splits if_splits)

subsection \<open>The claims about the builders\<close>

text \<open>\<^verbatim>\<open>belongsToMany\<close> on a model object without a \<^verbatim>\<open>prototype\<close> throws and leaves the store
  as it was; on an object that has one, it declares \<^verbatim>\<open>prop1\<close> there with the add-actions
  \<^verbatim>\<open>[SetID(prop2)]\<close> and the remove-actions \<^verbatim>\<open>[DeleteItem]\<close> or \<^verbatim>\<open>[RemoveID(prop2)]\<close>.\<close>

lemma belongsToMany_without_prototype:
  "prototype (w model1) = None \<Longrightarrow>
     belongsToMany w model1 prop1 model2 prop2 deleteOnRemove = (Some TypeError, w)"
  by (simp add: belongsToMany_def)

lemma belongsToMany_with_prototype:
  "prototype (w model1) = Some cls \<Longrightarrow>
     prototype (snd (belongsToMany w model1 prop1 model2 prop2 deleteOnRemove) model1) =
       Some (case trackRefs cls [prop1] [SetIDAction prop2]
                    [if deleteOnRemove then DeleteItemAction else RemoveIDAction prop2] of
               Inl err \<Rightarrow> cls
             | Inr cls' \<Rightarrow> cls')"
  by (simp add: belongsToMany_def Let_def split: sum.splits option.splits)

text \<open>C5. \<^verbatim>\<open>belongsToMany\<close> is to register for \<^verbatim>\<open>prop1\<close> the add-actions \<^verbatim>\<open>[SetID(prop2)]\<close> and
  the remove-actions \<^verbatim>\<open>[DeleteItem]\<close> or \<^verbatim>\<open>[UnsetID(prop2)]\<close>. Called on the models \<^verbatim>\<open>A\<close> and
  \<^verbatim>\<open>B\<close>, with or without \<^verbatim>\<open>deleteOnRemove\<close>, the code throws a TypeError and registers
  nothing: it hands the model, not its item class, to \<^verbatim>\<open>trackRefs\<close>.\<close>

theorem belongsToMany_on_models_throws_TypeError:
  "prototype (world_AB ''A'') = None
   \<and> belongsToMany world_AB ''A'' ''bIds'' ''B'' ''aId'' False = (Some TypeError, world_AB)
   \<and> belongsToMany world_AB ''A'' ''bIds'' ''B'' ''aId'' True = (Some TypeError, world_AB)
   \<and> addActions_of (Item (world_AB ''A'')) ''bIds'' = None
   \<and> removeActions_of (Item (world_AB ''A'')) ''bIds'' = None"
  by (simp add: belongsToMany_def world_AB_def new_class_def addActions_of_def
      removeActions_of_def)

text \<open>C6. \<^verbatim>\<open>connect\<close> is to register for \<^verbatim>\<open>prop1\<close> the remove-actions \<^verbatim>\<open>[UnsetID(prop2)]\<close> when
  a reciprocal property is given without \<^verbatim>\<open>deleteOnRemove\<close>. On a class without a prior
  registry the code registers the add-actions in their place: connecting \<^verbatim>\<open>A.bId\<close> to
  \<^verbatim>\<open>B.aId\<close> leaves \<^verbatim>\<open>SetID(aId)\<close> as the remove-action of \<^verbatim>\<open>bId\<close>, although the list that
  \<^verbatim>\<open>connect\<close> passes is \<^verbatim>\<open>[UnsetID(aId)]\<close>.\<close>

theorem connect_first_declaration_registers_SetID_for_removal:
  "fst (connect world_AB ''A'' ''bId'' ''B'' (Some ''aId'') False True) = None
   \<and> connect_addActions (Some ''aId'') False = [SetIDAction ''aId'']
   \<and> connect_removeActions (Some ''aId'') False = [UnsetIDAction ''aId'']
   \<and> addActions_of
        (Item (snd (connect world_AB ''A'' ''bId'' ''B'' (Some ''aId'') False True) ''A'')) ''bId''
        = Some [SetIDAction ''aId'']
   \<and> removeActions_of
        (Item (snd (connect world_AB ''A'' ''bId'' ''B'' (Some ''aId'') False True) ''A'')) ''bId''
        = Some [SetIDAction ''aId'']"
  by (simp add: connect_noRecurse connect_declare_def isArray_reciprocal_def truthy_prop_def
      connect_addActions_def connect_removeActions_def filter_Boolean_def set_refModel_def
      world_AB_def scalar_meta_def array_meta_def new_class_def trackRefs_first
      addActions_of_def removeActions_of_def)

text \<open>C7, as the code has it. \<^verbatim>\<open>connect\<close> throws InvalidParameters exactly when \<^verbatim>\<open>model1\<close>
  has a \<^verbatim>\<open>Meta\<close> entry for \<^verbatim>\<open>prop1\<close>, the reciprocal property is given and array-typed, and
  \<^verbatim>\<open>deleteOnRemove\<close> is set; the store of models is then as it was, so nothing has been
  registered; and no entry point of the delta engine ever throws InvalidParameters.\<close>

theorem connect_InvalidParameters:
  "(fst (connect w model1 prop1 model2 prop2 deleteOnRemove noRecurse) = Some InvalidParameters
      \<longleftrightarrow> Meta (w model1) prop1 \<noteq> None
          \<and> (\<exists>p2 meta2. prop2 = Some p2 \<and> p2 \<noteq> [] \<and> Meta (w model2) p2 = Some meta2
                \<and> mtype meta2 = ''array'')
          \<and> deleteOnRemove)
   \<and> (fst (connect w model1 prop1 model2 prop2 deleteOnRemove noRecurse) = Some InvalidParameters
        \<longrightarrow> snd (connect w model1 prop1 model2 prop2 deleteOnRemove noRecurse) = w)
   \<and> onRefsUpdateItem st it ns u \<noteq> Inl InvalidParameters
   \<and> onRefsAddItem st it ns \<noteq> Inl InvalidParameters
   \<and> onRefsDeleteItem st it \<noteq> Inl InvalidParameters"
proof (intro conjI)
  show "fst (connect w model1 prop1 model2 prop2 deleteOnRemove noRecurse) = Some InvalidParameters
      \<longleftrightarrow> Meta (w model1) prop1 \<noteq> None
          \<and> (\<exists>p2 meta2. prop2 = Some p2 \<and> p2 \<noteq> [] \<and> Meta (w model2) p2 = Some meta2
                \<and> mtype meta2 = ''array'')
          \<and> deleteOnRemove"
    by (simp add: connect_InvalidParameters_iff isArray_reciprocal_True)
  show "fst (connect w model1 prop1 model2 prop2 deleteOnRemove noRecurse) = Some InvalidParameters
           \<longrightarrow> snd (connect w model1 prop1 model2 prop2 deleteOnRemove noRecurse) = w"
    by (simp add: connect_InvalidParameters_unchanged)
  show "onRefsUpdateItem st it ns u \<noteq> Inl InvalidParameters"
    using onRefsUpdateItem_Inl by blast
  show "onRefsAddItem st it ns \<noteq> Inl InvalidParameters"
    unfolding onRefsAddItem_def using onRefsUpdateItem_Inl by blast
  show "onRefsDeleteItem st it \<noteq> Inl InvalidParameters"
    unfolding onRefsDeleteItem_def using onRefsUpdateItem_Inl by blast
qed

theorem connect_InvalidParameters_witness:
  "Meta (world_AB ''A'') ''bId'' \<noteq> None
   \<and> Meta (world_AB ''B'') ''aIds'' = Some array_meta \<and> mtype array_meta = ''array''
   \<and> connect world_AB ''A'' ''bId'' ''B'' (Some ''aIds'') True False
       = (Some InvalidParameters, world_AB)
   \<and> fst (connect world_AB ''A'' ''bId'' ''B'' (Some ''aIds'') False False) \<noteq> Some InvalidParameters
   \<and> Meta (world_AB ''A'') ''zzz'' = None
   \<and> fst (connect world_AB ''A'' ''zzz'' ''B'' (Some ''aIds'') True False) \<noteq> Some InvalidParameters"
proof -
  have m: "Meta (world_AB ''A'') ''bId'' \<noteq> None" "Meta (world_AB ''A'') ''zzz'' = None"
    by (simp_all add: world_AB_def)
  have a: "Meta (world_AB ''B'') ''aIds'' = Some array_meta" "mtype array_meta = ''array''"
    by (simp_all add: world_AB_def array_meta_def)
  from connect_InvalidParameters [of world_AB "''A''" "''bId''" "''B''" "Some ''aIds''" True False] m a
  have "fst (connect world_AB ''A'' ''bId'' ''B'' (Some ''aIds'') True False) = Some InvalidParameters"
       "snd (connect world_AB ''A'' ''bId'' ''B'' (Some ''aIds'') True False) = world_AB"
    by simp_all
  then have t: "connect world_AB ''A'' ''bId'' ''B'' (Some ''aIds'') True False
       = (Some InvalidParameters, world_AB)"
    by (simp add: prod_eq_iff)
  from connect_InvalidParameters [of world_AB "''A''" "''bId''" "''B''" "Some ''aIds''" False False]
  have f: "fst (connect world_AB ''A'' ''bId'' ''B'' (Some ''aIds'') False False) \<noteq> Some InvalidParameters"
    by simp
  from connect_InvalidParameters [of world_AB "''A''" "''zzz''" "''B''" "Some ''aIds''" True False] m
  have z: "fst (connect world_AB ''A'' ''zzz'' ''B'' (Some ''aIds'') True False) \<noteq> Some InvalidParameters"
    by simp
  from m a t f z show ?thesis by blast
qed

text \<open>C7, as stated, fails: with an array-typed reciprocal property and \<^verbatim>\<open>deleteOnRemove\<close>,
  \<^verbatim>\<open>connect\<close> on a property that \<^verbatim>\<open>A\<close> does not declare throws a TypeError, not
  InvalidParameters; and a configuration without the \<^verbatim>\<open>Meta\<close> entry of a tracked property
  throws only when the engine runs in a transaction.\<close>

theorem connect_undeclared_property_throws_TypeError:
  "connect world_AB ''A'' ''zzz'' ''B'' (Some ''aIds'') True False = (Some TypeError, world_AB)
   \<and> onRefsUpdateItem Map.empty (item_a2\<lparr>model_Meta := Map.empty\<rparr>) newState_a2 True
       = Inl TypeError"
  by (simp add: connect_cases connect_declare_def world_AB_def engine_defs item_a2_def
      newState_a2_def class_bId_def registry_bId_def)

section \<open>Properties of the search index adapter\<close>

lemma foldl_assign:
  "foldl (\<lambda>x e. x(e \<mapsto> g e)) x0 es k = (if k \<in> set es then Some (g k) else x0 k)"
  by (induction es arbitrary: x0) auto

text \<open>The state handed to the indexer: the candidate, with every indexed property that
  it lacks read from the persisted state.\<close>

lemma fill_from_persisted_apply:
  "fill_from_persisted it ns ps e =
     (if e \<in> set ps \<and> ns e = None then Some (lookup (read it) e) else ns e)"
  by (simp add: fill_from_persisted_def hasProp_def foldl_assign)

lemma index_text_filled:
  assumes "set ps \<subseteq> set qs"
  shows "index_text ps (fill_from_persisted it ns qs) =
           join '' '' (map (\<lambda>e. String_of (nullish
              (case ns e of None \<Rightarrow> lookup (read it) e | Some v \<Rightarrow> v) (Str []))) ps)"
proof -
  have "lookup (fill_from_persisted it ns qs) e
          = (case ns e of None \<Rightarrow> lookup (read it) e | Some v \<Rightarrow> v)"
    if "e \<in> set ps" for e
    using that assms by (auto simp: lookup_def fill_from_persisted_apply split: option.splits)
  then show ?thesis
    unfolding index_text_def by (intro arg_cong[where f = "join '' ''"]) simp
qed

text \<open>C9. When at least one indexed property changed, \<^verbatim>\<open>updateInTxn\<close> upserts the entry
  that the indexer computes from a state \<^verbatim>\<open>x\<close> equal to the candidate new state except that
  every indexed property absent from the candidate holds the persisted value; so the
  text that \<^verbatim>\<open>createIndexEntry\<close> tokenizes for indexed properties takes the persisted value
  of each property that the update leaves out.\<close>

theorem updateInTxn_fills_from_persisted:
  assumes "searchIndexProps (proto it) = Some si"
    and "\<exists>e \<in> set (index_props si). didUpdate it e"
  shows "\<exists>x. updateInTxn it ns = Some (index_id it, indexer si (index_id it) x)
       \<and> (\<forall>e. x e = (if e \<in> set (index_props si) \<and> ns e = None
                       then Some (lookup (read it) e) else ns e))
       \<and> (\<forall>parseQuery ps prev. set ps \<subseteq> set (index_props si) \<longrightarrow>
            tokens (createIndexEntry parseQuery ps (index_id it) x prev) =
              filter_uniq
                (concat (parseQuery (join '' '' (map (\<lambda>e. String_of (nullish
                    (case ns e of None \<Rightarrow> lookup (read it) e | Some v \<Rightarrow> v) (Str []))) ps)))
                 @ (case prev of None \<Rightarrow> [] | Some p \<Rightarrow> tokens p)))"
proof -
  let ?x = "fill_from_persisted it ns (index_props si)"
  from assms have "updateInTxn it ns = Some (index_id it, indexer si (index_id it) ?x)"
    by (simp add: updateInTxn_def list_ex_iff Let_def)
  moreover have "\<forall>e. ?x e = (if e \<in> set (index_props si) \<and> ns e = None
                       then Some (lookup (read it) e) else ns e)"
    by (simp add: fill_from_persisted_apply)
  moreover have "\<forall>parseQuery ps prev. set ps \<subseteq> set (index_props si) \<longrightarrow>
            tokens (createIndexEntry parseQuery ps (index_id it) ?x prev) =
              filter_uniq
                (concat (parseQuery (join '' '' (map (\<lambda>e. String_of (nullish
                    (case ns e of None \<Rightarrow> lookup (read it) e | Some v \<Rightarrow> v) (Str []))) ps)))
                 @ (case prev of None \<Rightarrow> [] | Some p \<Rightarrow> tokens p))"
    by (simp add: createIndexEntry_def index_text_filled)
  ultimately show ?thesis by blast
qed

lemma item_post_index:
  "searchIndexProps (proto item_post) =
     Some \<lparr>index_props = [''title'', ''body''],
           indexer = (\<lambda>i st. createIndexEntry whole_text [''title'', ''body''] i st None)\<rparr>"
  by (simp add: item_post_def indexForSearch_def new_class_def)

theorem updateInTxn_fills_from_persisted_witness:
  "didUpdate item_post ''body'' \<and> newState_post ''title'' = None
   \<and> lookup (read item_post) ''title'' = Str ''Foo Bar''
   \<and> updateInTxn item_post newState_post = Some (''posts^p1'', \<lparr>tokens = [''Foo Bar new'']\<rparr>)"
proof -
  let ?si = "\<lparr>index_props = [''title'', ''body''],
           indexer = (\<lambda>i st. createIndexEntry whole_text [''title'', ''body''] i st None)\<rparr>"
  have upd: "\<exists>e \<in> set (index_props ?si). didUpdate item_post e"
    by (simp add: item_post_def)
  from updateInTxn_fills_from_persisted [OF item_post_index upd, of newState_post]
  obtain x where
    x: "updateInTxn item_post newState_post
          = Some (index_id item_post, indexer ?si (index_id item_post) x)"
    and t: "\<forall>parseQuery ps prev. set ps \<subseteq> set (index_props ?si) \<longrightarrow>
            tokens (createIndexEntry parseQuery ps (index_id item_post) x prev) =
              filter_uniq
                (concat (parseQuery (join '' '' (map (\<lambda>e. String_of (nullish
                    (case newState_post e of None \<Rightarrow> lookup (read item_post) e | Some v \<Rightarrow> v)
                    (Str []))) ps)))
                 @ (case prev of None \<Rightarrow> [] | Some p \<Rightarrow> tokens p))"
    by blast
  from t have "tokens (createIndexEntry whole_text [''title'', ''body''] (index_id item_post) x None)
      = [''Foo Bar new'']"
    by (simp add: whole_text_def newState_post_def item_post_def lookup_def filter_uniq_def)
  then have "createIndexEntry whole_text [''title'', ''body''] (index_id item_post) x None
      = \<lparr>tokens = [''Foo Bar new'']\<rparr>"
    by (cases "createIndexEntry whole_text [''title'', ''body''] (index_id item_post) x None") simp
  with x have "updateInTxn item_post newState_post = Some (''posts^p1'', \<lparr>tokens = [''Foo Bar new'']\<rparr>)"
    by (simp add: index_id_def item_post_def)
  then show ?thesis
    by (simp add: item_post_def newState_post_def lookup_def)
qed

end
